theory Spec2Isabelle
  imports Main
begin

section \<open>Data model\<close>

text \<open>
  The program is a small fiber reconciler (\<^verbatim>\<open>src/index.js\<close>). Its objects are mutable and
  shared through references, so the model keeps three explicit stores: one for work units
  (fibers), one for hook records and one for host (DOM) nodes. A reference is the address
  of an object in its store; \<^verbatim>\<open>null\<close> and \<^verbatim>\<open>undefined\<close> references are \<open>None\<close>.
\<close>

type_synonym ref = nat
type_synonym nref = nat
type_synonym href = nat

text \<open>
  A \<^verbatim>\<open>type\<close> is a host tag name (the text marker is the tag \<^verbatim>\<open>"TEXT_ELEMENT"\<close>) or a
  component function; a component function is named by its index in a table of component
  bodies, and two such types are equal when they are the same function.
\<close>

datatype etype = Tag string | Fn nat

text \<open>
  Values stored under the keys of a \<^verbatim>\<open>props\<close> object. Functions are opaque and compared
  by identity (\<open>Fun\<close> carries the identity). \<open>Builtin key\<close> is the member that every object
  inherits from \<^verbatim>\<open>Object.prototype\<close> under the name \<open>key\<close>. The array under the key
  \<^verbatim>\<open>children\<close> is \<open>Elems\<close>; it is the only array of the data model, and the code never
  compares it. An entry of that array is an element or \<^verbatim>\<open>null\<close> (\<open>None\<close>).
  A \<^verbatim>\<open>props\<close> object is the list of its own keys and values in insertion order.
\<close>

datatype pval = Undefined | Null | Bool bool | Num int | Str string | Fun nat
  | Builtin string | Elems "element option list"
and element = Element (el_type: etype) (el_props: "(string \<times> pval) list")

type_synonym props = "(string \<times> pval) list"

datatype error = TypeError | NotFoundError | InvalidCharacterError

datatype effect = PLACEMENT | UPDATE | DELETION

record fiber =
  type :: "etype option"
  props :: props
  dom :: "nref option"
  parent :: "ref option"
  child :: "ref option"
  sibling :: "ref option"
  alternate :: "ref option"
  effectTag :: "effect option"
  hooks :: "href list option"

record 'v hook =
  state :: 'v
  queue :: "('v \<Rightarrow> 'v) list"

text \<open>
  A host node: its name, the properties assigned with \<^verbatim>\<open>dom[name] = value\<close>, its
  registered listeners, its children in order and the node it is attached to.
\<close>

record node =
  nodeName :: string
  attrs :: "string \<Rightarrow> pval option"
  listeners :: "(string \<times> pval) list"
  childNodes :: "nref list"
  parentNode :: "nref option"

text \<open>
  The module-level variables of the source, with the three stores. Each store has a
  counter: an object is created at the address the counter holds.
\<close>

record 'v world =
  fibers :: "ref \<Rightarrow> fiber"
  fiberCount :: nat
  hookStore :: "href \<Rightarrow> 'v hook"
  hookCount :: nat
  nodes :: "nref \<Rightarrow> node"
  nodeCount :: nat
  nextUnitOfWork :: "ref option"
  currentRoot :: "ref option"
  wipRoot :: "ref option"
  deletions :: "ref list option"
  wipFiber :: "ref option"
  hookIndex :: "nat option"

text \<open>
  A component body calls \<^verbatim>\<open>useState\<close> some number of times and returns an element or
  \<^verbatim>\<open>null\<close>. The continuation of a call receives the pair the hook returns: the state and
  the update capability, which is the closure over the hook record and is named by that
  record.
\<close>

datatype 'v comp = Return "element option" | UseState 'v "'v \<Rightarrow> href \<Rightarrow> 'v comp"

section \<open>Property access\<close>

text \<open>
  Every \<^verbatim>\<open>props\<close> object of the program is made by an object literal, so its prototype is
  \<^verbatim>\<open>Object.prototype\<close>. \<^verbatim>\<open>Object.keys\<close> lists the own keys; the operator \<^verbatim>\<open>in\<close> and the
  read \<^verbatim>\<open>obj[key]\<close> also see the members of the prototype, whose names are
  \<open>inheritedKeys\<close>.
\<close>

definition keys :: "props \<Rightarrow> string list" where
  "keys ps = map fst ps"

definition inheritedKeys :: "string list" where
  "inheritedKeys =
     [''constructor'', ''__defineGetter__'', ''__defineSetter__'', ''hasOwnProperty'',
      ''__lookupGetter__'', ''__lookupSetter__'', ''isPrototypeOf'', ''propertyIsEnumerable'',
      ''toString'', ''valueOf'', ''__proto__'', ''toLocaleString'']"

definition has :: "props \<Rightarrow> string \<Rightarrow> bool" where
  "has ps key = (key \<in> set (keys ps) \<or> key \<in> set inheritedKeys)"

definition get :: "props \<Rightarrow> string \<Rightarrow> pval" where
  "get ps key =
     (case map_of ps key of
        Some v \<Rightarrow> v
      | None \<Rightarrow> if key \<in> set inheritedKeys then Builtin key else Undefined)"

definition children :: "props \<Rightarrow> element option list option" where
  "children ps = (case get ps ''children'' of Elems es \<Rightarrow> Some es | _ \<Rightarrow> None)"

section \<open>Host tree primitives\<close>

text \<open>
  A character is a code from 0 to 255, read as Latin-1. \<^verbatim>\<open>toLowerCase\<close> maps each of the
  capital letters of that range, \<^verbatim>\<open>A\<close> to \<^verbatim>\<open>Z\<close> and the codes \<^verbatim>\<open>C0\<close> to \<^verbatim>\<open>DE\<close> without the
  sign \<^verbatim>\<open>D7\<close>, to the letter 32 codes further, and leaves every other character.
\<close>

definition upperCase :: string where
  "upperCase = ''ABCDEFGHIJKLMNOPQRSTUVWXYZ'' @
     [CHR 0xC0, CHR 0xC1, CHR 0xC2, CHR 0xC3, CHR 0xC4, CHR 0xC5, CHR 0xC6, CHR 0xC7,
      CHR 0xC8, CHR 0xC9, CHR 0xCA, CHR 0xCB, CHR 0xCC, CHR 0xCD, CHR 0xCE, CHR 0xCF,
      CHR 0xD0, CHR 0xD1, CHR 0xD2, CHR 0xD3, CHR 0xD4, CHR 0xD5, CHR 0xD6, CHR 0xD8,
      CHR 0xD9, CHR 0xDA, CHR 0xDB, CHR 0xDC, CHR 0xDD, CHR 0xDE]"

definition lowerCase :: string where
  "lowerCase = ''abcdefghijklmnopqrstuvwxyz'' @
     [CHR 0xE0, CHR 0xE1, CHR 0xE2, CHR 0xE3, CHR 0xE4, CHR 0xE5, CHR 0xE6, CHR 0xE7,
      CHR 0xE8, CHR 0xE9, CHR 0xEA, CHR 0xEB, CHR 0xEC, CHR 0xED, CHR 0xEE, CHR 0xEF,
      CHR 0xF0, CHR 0xF1, CHR 0xF2, CHR 0xF3, CHR 0xF4, CHR 0xF5, CHR 0xF6, CHR 0xF8,
      CHR 0xF9, CHR 0xFA, CHR 0xFB, CHR 0xFC, CHR 0xFD, CHR 0xFE]"

definition toLowerChar :: "char \<Rightarrow> char" where
  "toLowerChar c = (case map_of (zip upperCase lowerCase) c of None \<Rightarrow> c | Some l \<Rightarrow> l)"

definition toLowerCase :: "string \<Rightarrow> string" where
  "toLowerCase s = map toLowerChar s"

definition substring :: "nat \<Rightarrow> string \<Rightarrow> string" where
  "substring n s = drop n s"

datatype hostcall =
    RemoveEventListener string pval
  | SetField string pval
  | AddEventListener string pval

text \<open>
  A listener is registered once per event type and callback; removing one that is not
  registered does nothing. A \<^verbatim>\<open>null\<close> or \<^verbatim>\<open>undefined\<close> callback is ignored.
\<close>

fun hostCall :: "hostcall \<Rightarrow> node \<Rightarrow> node" where
  "hostCall (RemoveEventListener eventType h) n =
     n\<lparr>listeners := removeAll (eventType, h) (listeners n)\<rparr>"
| "hostCall (SetField name v) n = n\<lparr>attrs := (attrs n)(name \<mapsto> v)\<rparr>"
| "hostCall (AddEventListener eventType h) n =
     (if h = Undefined \<or> h = Null \<or> (eventType, h) \<in> set (listeners n) then n
      else n\<lparr>listeners := listeners n @ [(eventType, h)]\<rparr>)"

definition newNode :: "string \<Rightarrow> node" where
  "newNode name =
     \<lparr>nodeName = name, attrs = Map.empty, listeners = [], childNodes = [], parentNode = None\<rparr>"

definition detach :: "nref \<Rightarrow> 'v world \<Rightarrow> 'v world" where
  "detach c w =
     (case parentNode (nodes w c) of
        None \<Rightarrow> w
      | Some p \<Rightarrow>
          w\<lparr>nodes := (nodes w)
               (p := (nodes w p)\<lparr>childNodes := removeAll c (childNodes (nodes w p))\<rparr>,
                c := (nodes w c)\<lparr>parentNode := None\<rparr>)\<rparr>)"

text \<open>\<^verbatim>\<open>parent.appendChild(c)\<close>: a node that is attached somewhere is moved.\<close>

definition appendChild :: "nref \<Rightarrow> nref \<Rightarrow> 'v world \<Rightarrow> 'v world" where
  "appendChild p c w =
     (let w1 = detach c w
      in w1\<lparr>nodes := (nodes w1)
               (p := (nodes w1 p)\<lparr>childNodes := childNodes (nodes w1 p) @ [c]\<rparr>,
                c := (nodes w1 c)\<lparr>parentNode := Some p\<rparr>)\<rparr>)"

text \<open>\<^verbatim>\<open>parent.removeChild(c)\<close> throws when \<open>c\<close> is not a child of \<open>parent\<close>.\<close>

definition removeChild :: "nref \<Rightarrow> nref \<Rightarrow> 'v world \<Rightarrow> error + 'v world" where
  "removeChild p c w =
     (if c \<in> set (childNodes (nodes w p)) then Inr (detach c w) else Inl NotFoundError)"

section \<open>updateDom\<close>

definition isEvent :: "string \<Rightarrow> bool" where
  "isEvent key = (take 2 key = ''on'')"

definition isProperty :: "string \<Rightarrow> bool" where
  "isProperty key = (key \<noteq> ''children'' \<and> \<not> isEvent key)"

definition isNew :: "props \<Rightarrow> props \<Rightarrow> string \<Rightarrow> bool" where
  "isNew prev next key = (get prev key \<noteq> get next key)"

definition isGone :: "props \<Rightarrow> props \<Rightarrow> string \<Rightarrow> bool" where
  "isGone prev next key = (\<not> has next key)"

definition eventType :: "string \<Rightarrow> string" where
  "eventType name = substring 2 (toLowerCase name)"

text \<open>The four passes of \<^verbatim>\<open>updateDom\<close>, as the host calls they make, in order.\<close>

definition updateDomCalls :: "props \<Rightarrow> props \<Rightarrow> hostcall list" where
  "updateDomCalls prevProps nextProps =
     map (\<lambda>name. RemoveEventListener (eventType name) (get prevProps name))
       (filter (\<lambda>key. \<not> has nextProps key \<or> isNew prevProps nextProps key)
         (filter isEvent (keys prevProps)))
     @ map (\<lambda>name. SetField name (Str ''''))
       (filter (isGone prevProps nextProps) (filter isProperty (keys prevProps)))
     @ map (\<lambda>name. SetField name (get nextProps name))
       (filter (isNew prevProps nextProps) (filter isProperty (keys nextProps)))
     @ map (\<lambda>name. AddEventListener (eventType name) (get nextProps name))
       (filter (isNew prevProps nextProps) (filter isEvent (keys nextProps)))"

definition updateDom :: "nref \<Rightarrow> props \<Rightarrow> props \<Rightarrow> 'v world \<Rightarrow> 'v world" where
  "updateDom d prevProps nextProps w =
     w\<lparr>nodes := (nodes w)(d := fold hostCall (updateDomCalls prevProps nextProps) (nodes w d))\<rparr>"

text \<open>
  \<^verbatim>\<open>createDom\<close>: a text node for the text marker, an element node otherwise. The host
  rejects a name that is not a tag name; the source of a function is none.
\<close>

definition createDom :: "ref \<Rightarrow> 'v world \<Rightarrow> error + nref \<times> 'v world" where
  "createDom f w =
     (let fb = fibers w f;
          d = nodeCount w
      in case (case type fb of
                 None \<Rightarrow> Inr (newNode ''undefined'')
               | Some (Tag t) \<Rightarrow>
                   Inr (if t = ''TEXT_ELEMENT'' then newNode ''#text'' else newNode t)
               | Some (Fn c) \<Rightarrow> Inl InvalidCharacterError) of
           Inl e \<Rightarrow> Inl e
         | Inr n \<Rightarrow>
             Inr (d, updateDom d [] (props fb)
                       (w\<lparr>nodes := (nodes w)(d := n), nodeCount := d + 1\<rparr>)))"

section \<open>Hook state store\<close>

text \<open>
  \<^verbatim>\<open>useState\<close>. The previous hook is \<^verbatim>\<open>wipFiber.alternate.hooks[hookIndex]\<close>, absent when
  any link of that path is. The queued actions of the previous hook are replayed in order
  on the new hook's state. An update function is a total function on states.
\<close>

definition oldHookOf :: "'v world \<Rightarrow> ref \<Rightarrow> href option" where
  "oldHookOf w wip =
     (case alternate (fibers w wip) of
        None \<Rightarrow> None
      | Some a \<Rightarrow>
          (case hooks (fibers w a) of
             None \<Rightarrow> None
           | Some hs \<Rightarrow>
               (case hookIndex w of
                  None \<Rightarrow> None
                | Some i \<Rightarrow> if i < length hs then Some (hs ! i) else None)))"

definition useState :: "'v \<Rightarrow> 'v world \<Rightarrow> error + ('v \<times> href) \<times> 'v world" where
  "useState initial w =
     (case wipFiber w of
        None \<Rightarrow> Inl TypeError
      | Some wip \<Rightarrow>
          (let oldHook = oldHookOf w wip;
               h = hookCount w;
               actions = (case oldHook of None \<Rightarrow> [] | Some oh \<Rightarrow> queue (hookStore w oh));
               s = fold (\<lambda>action s. action s) actions
                     (case oldHook of None \<Rightarrow> initial | Some oh \<Rightarrow> state (hookStore w oh));
               hook = \<lparr>state = s, queue = []\<rparr>
           in case hooks (fibers w wip) of
                None \<Rightarrow> Inl TypeError
              | Some hs \<Rightarrow>
                  Inr ((s, h),
                    w\<lparr>hookStore := (hookStore w)(h := hook),
                      hookCount := h + 1,
                      fibers := (fibers w)(wip := (fibers w wip)\<lparr>hooks := Some (hs @ [h])\<rparr>),
                      hookIndex := Some (case hookIndex w of None \<Rightarrow> 1 | Some i \<Rightarrow> i + 1)\<rparr>)))"

text \<open>
  The update capability \<^verbatim>\<open>setState\<close> of the hook record \<open>h\<close>. The push on the queue comes
  first; reading \<^verbatim>\<open>currentRoot.dom\<close> faults when nothing has been committed.
\<close>

definition setState :: "href \<Rightarrow> ('v \<Rightarrow> 'v) \<Rightarrow> 'v world \<Rightarrow> error + 'v world" where
  "setState h action w =
     (let w1 = w\<lparr>hookStore := (hookStore w)
                  (h := (hookStore w h)\<lparr>queue := queue (hookStore w h) @ [action]\<rparr>)\<rparr>
      in case currentRoot w1 of
           None \<Rightarrow> Inl TypeError
         | Some cr \<Rightarrow>
             (let r = fiberCount w1;
                  root = \<lparr>type = None, props = props (fibers w1 cr), dom = dom (fibers w1 cr),
                          parent = None, child = None, sibling = None,
                          alternate = Some cr, effectTag = None, hooks = None\<rparr>
              in Inr (w1\<lparr>fibers := (fibers w1)(r := root), fiberCount := r + 1,
                         wipRoot := Some r, nextUnitOfWork := Some r, deletions := Some []\<rparr>)))"

primrec runComponent :: "'v comp \<Rightarrow> 'v world \<Rightarrow> error + element option \<times> 'v world" where
  "runComponent (Return e) = (\<lambda>w. Inr (e, w))"
| "runComponent (UseState initial k) =
     (\<lambda>w. case useState initial w of
             Inl e \<Rightarrow> Inl e
           | Inr ((s, setter), w1) \<Rightarrow> runComponent (k s setter) w1)"

section \<open>Reconciler\<close>

text \<open>
  \<^verbatim>\<open>elements[index]\<close>: \<^verbatim>\<open>undefined\<close> past the end of the sequence, and the entry otherwise,
  which may be \<^verbatim>\<open>null\<close>. The loop tests the value for truth only, so both are \<open>None\<close>.
\<close>

definition elementAt :: "element option list \<Rightarrow> nat \<Rightarrow> element option" where
  "elementAt elements index = (if index < length elements then elements ! index else None)"

text \<open>
  One iteration of the loop of \<^verbatim>\<open>reconcileChildren\<close>. The result is the next \<^verbatim>\<open>oldFiber\<close>,
  the new fiber (the next \<^verbatim>\<open>prevSibling\<close>) and the world.
\<close>

definition reconcileStep ::
  "ref \<Rightarrow> element option list \<Rightarrow> nat \<Rightarrow> ref option \<Rightarrow> ref option \<Rightarrow> 'v world
     \<Rightarrow> error + ref option \<times> ref option \<times> 'v world" where
  "reconcileStep wip elements index oldFiber prevSibling w =
     (let element = elementAt elements index;
          sameType = (case oldFiber of
                        None \<Rightarrow> False
                      | Some old \<Rightarrow>
                          (case element of
                             None \<Rightarrow> False
                           | Some el \<Rightarrow> Some (el_type el) = type (fibers w old)));
          r = fiberCount w;
          created =
            (case element of
               None \<Rightarrow> None
             | Some el \<Rightarrow>
                 Some (case (if sameType then oldFiber else None) of
                         Some old \<Rightarrow>
                           \<lparr>type = type (fibers w old), props = el_props el,
                            dom = dom (fibers w old), parent = Some wip,
                            child = None, sibling = None, alternate = Some old,
                            effectTag = Some UPDATE, hooks = None\<rparr>
                       | None \<Rightarrow>
                           \<lparr>type = Some (el_type el), props = el_props el,
                            dom = None, parent = Some wip,
                            child = None, sibling = None, alternate = None,
                            effectTag = Some PLACEMENT, hooks = None\<rparr>));
          newFiber = (case created of None \<Rightarrow> None | Some fb \<Rightarrow> Some r);
          w1 = (case created of
                  None \<Rightarrow> w
                | Some fb \<Rightarrow> w\<lparr>fibers := (fibers w)(r := fb), fiberCount := r + 1\<rparr>)
      in case (case oldFiber of
                 None \<Rightarrow> Inr w1
               | Some old \<Rightarrow>
                   if sameType then Inr w1
                   else (case deletions w1 of
                           None \<Rightarrow> Inl TypeError
                         | Some ds \<Rightarrow>
                             Inr (w1\<lparr>fibers := (fibers w1)
                                       (old := (fibers w1 old)\<lparr>effectTag := Some DELETION\<rparr>),
                                     deletions := Some (ds @ [old])\<rparr>))) of
           Inl e \<Rightarrow> Inl e
         | Inr w2 \<Rightarrow>
             (let oldFiber' = (case oldFiber of
                                 None \<Rightarrow> None
                               | Some old \<Rightarrow> sibling (fibers w2 old))
              in if index = 0 then
                   Inr (oldFiber', newFiber,
                        w2\<lparr>fibers := (fibers w2)(wip := (fibers w2 wip)\<lparr>child := newFiber\<rparr>)\<rparr>)
                 else if element \<noteq> None then
                   (case prevSibling of
                      None \<Rightarrow> Inl TypeError
                    | Some p \<Rightarrow>
                        Inr (oldFiber', newFiber,
                             w2\<lparr>fibers := (fibers w2)
                                  (p := (fibers w2 p)\<lparr>sibling := newFiber\<rparr>)\<rparr>))
                 else Inr (oldFiber', newFiber, w2)))"

text \<open>
  The loop runs while an element or an old fiber is left. A chain of old fibers that
  never ends keeps it running for ever: the result \<open>None\<close>.
\<close>

partial_function (option) reconcileLoop ::
  "ref \<Rightarrow> element option list \<Rightarrow> nat \<Rightarrow> ref option \<Rightarrow> ref option \<Rightarrow> 'v world
     \<Rightarrow> (error + 'v world) option" where
  "reconcileLoop wip elements index oldFiber prevSibling w =
     (if index < length elements \<or> oldFiber \<noteq> None then
        (case reconcileStep wip elements index oldFiber prevSibling w of
           Inl e \<Rightarrow> Some (Inl e)
         | Inr (oldFiber', newFiber, w1) \<Rightarrow>
             reconcileLoop wip elements (index + 1) oldFiber' newFiber w1)
      else Some (Inr w))"

definition reconcileChildren ::
  "ref \<Rightarrow> element option list \<Rightarrow> 'v world \<Rightarrow> (error + 'v world) option" where
  "reconcileChildren wip elements w =
     reconcileLoop wip elements 0
       (case alternate (fibers w wip) of None \<Rightarrow> None | Some a \<Rightarrow> child (fibers w a))
       None w"

section \<open>Per-unit processing\<close>

text \<open>
  \<open>comps\<close> is the table of component bodies: \<open>comps c\<close> is the function the type
  \<open>Fn c\<close> names, from its \<^verbatim>\<open>props\<close> to its body.
\<close>

definition updateFunctionComponent ::
  "(nat \<Rightarrow> props \<Rightarrow> 'v comp) \<Rightarrow> ref \<Rightarrow> 'v world \<Rightarrow> (error + 'v world) option" where
  "updateFunctionComponent comps f w =
     (let w1 = w\<lparr>wipFiber := Some f, hookIndex := Some 0,
                 fibers := (fibers w)(f := (fibers w f)\<lparr>hooks := Some []\<rparr>)\<rparr>
      in case type (fibers w1 f) of
           Some (Fn c) \<Rightarrow>
             (case runComponent (comps c (props (fibers w1 f))) w1 of
                Inl e \<Rightarrow> Some (Inl e)
              | Inr (el, w2) \<Rightarrow> reconcileChildren f [el] w2)
         | _ \<Rightarrow> Some (Inl TypeError))"

text \<open>
  \<^verbatim>\<open>updateHostComponent\<close>. When \<^verbatim>\<open>fiber.props.children\<close> is no array the reconciler faults
  on its first read of \<^verbatim>\<open>elements.length\<close>, before it changes anything.
\<close>

definition updateHostComponent :: "ref \<Rightarrow> 'v world \<Rightarrow> (error + 'v world) option" where
  "updateHostComponent f w =
     (case (case dom (fibers w f) of
              Some d \<Rightarrow> Inr w
            | None \<Rightarrow>
                (case createDom f w of
                   Inl e \<Rightarrow> Inl e
                 | Inr (d, w1) \<Rightarrow>
                     Inr (w1\<lparr>fibers := (fibers w1)(f := (fibers w1 f)\<lparr>dom := Some d\<rparr>)\<rparr>))) of
        Inl e \<Rightarrow> Some (Inl e)
      | Inr w2 \<Rightarrow>
          (case children (props (fibers w2 f)) of
             None \<Rightarrow> Some (Inl TypeError)
           | Some elements \<Rightarrow> reconcileChildren f elements w2))"

text \<open>
  The search for the next unit once a fiber has no child: the first sibling on the way up
  through the parents, or nothing when the walk falls off the root.
\<close>

partial_function (option) nextSibling :: "ref option \<Rightarrow> 'v world \<Rightarrow> ref option option" where
  "nextSibling nextFiber w =
     (case nextFiber of
        None \<Rightarrow> Some None
      | Some f \<Rightarrow>
          (case sibling (fibers w f) of
             Some s \<Rightarrow> Some (Some s)
           | None \<Rightarrow> nextSibling (parent (fibers w f)) w))"

definition isFunctionComponent :: "fiber \<Rightarrow> bool" where
  "isFunctionComponent fb = (case type fb of Some (Fn c) \<Rightarrow> True | _ \<Rightarrow> False)"

definition performUnitOfWork ::
  "(nat \<Rightarrow> props \<Rightarrow> 'v comp) \<Rightarrow> ref \<Rightarrow> 'v world \<Rightarrow> (error + ref option \<times> 'v world) option"
  where
  "performUnitOfWork comps f w =
     Option.bind
       (if isFunctionComponent (fibers w f) then updateFunctionComponent comps f w
        else updateHostComponent f w)
       (\<lambda>r. case r of
               Inl e \<Rightarrow> Some (Inl e)
             | Inr w1 \<Rightarrow>
                 (case child (fibers w1 f) of
                    Some c \<Rightarrow> Some (Inr (Some c, w1))
                  | None \<Rightarrow>
                      Option.bind (nextSibling (Some f) w1) (\<lambda>n. Some (Inr (n, w1)))))"

section \<open>Commit engine\<close>

partial_function (option) commitDeletion ::
  "ref option \<Rightarrow> nref \<Rightarrow> 'v world \<Rightarrow> (error + 'v world) option" where
  "commitDeletion fiber domParent w =
     (case fiber of
        None \<Rightarrow> Some (Inl TypeError)
      | Some f \<Rightarrow>
          (case dom (fibers w f) of
             Some d \<Rightarrow> Some (removeChild domParent d w)
           | None \<Rightarrow> commitDeletion (child (fibers w f)) domParent w))"

text \<open>
  The loop at the head of \<^verbatim>\<open>commitWork\<close>: the nearest fiber with a host node, from
  \<^verbatim>\<open>fiber.parent\<close> upwards. It faults when it runs off the root.
\<close>

partial_function (option) domParentOf :: "ref option \<Rightarrow> 'v world \<Rightarrow> (error + nref) option"
  where
  "domParentOf domParentFiber w =
     (case domParentFiber of
        None \<Rightarrow> Some (Inl TypeError)
      | Some p \<Rightarrow>
          (case dom (fibers w p) of
             None \<Rightarrow> domParentOf (parent (fibers w p)) w
           | Some d \<Rightarrow> Some (Inr d)))"

text \<open>The effect of \<^verbatim>\<open>commitWork\<close> on one fiber, by its tag.\<close>

definition commitEffect :: "ref \<Rightarrow> nref \<Rightarrow> 'v world \<Rightarrow> (error + 'v world) option" where
  "commitEffect f domParent w =
     (let fb = fibers w f
      in if effectTag fb = Some PLACEMENT \<and> dom fb \<noteq> None then
           (case dom fb of
              Some d \<Rightarrow> Some (Inr (appendChild domParent d w))
            | None \<Rightarrow> Some (Inr w))
         else if effectTag fb = Some UPDATE \<and> dom fb \<noteq> None then
           (case dom fb of
              Some d \<Rightarrow>
                (case alternate fb of
                   None \<Rightarrow> Some (Inl TypeError)
                 | Some a \<Rightarrow> Some (Inr (updateDom d (props (fibers w a)) (props fb) w)))
            | None \<Rightarrow> Some (Inr w))
         else if effectTag fb = Some DELETION then commitDeletion (Some f) domParent w
         else Some (Inr w))"

partial_function (option) commitWork :: "ref option \<Rightarrow> 'v world \<Rightarrow> (error + 'v world) option"
  where
  "commitWork fiber w =
     (case fiber of
        None \<Rightarrow> Some (Inr w)
      | Some f \<Rightarrow>
          Option.bind (domParentOf (parent (fibers w f)) w)
            (\<lambda>r. case r of
                    Inl e \<Rightarrow> Some (Inl e)
                  | Inr domParent \<Rightarrow>
                      Option.bind (commitEffect f domParent w)
                        (\<lambda>r. case r of
                                Inl e \<Rightarrow> Some (Inl e)
                              | Inr w1 \<Rightarrow>
                                  Option.bind (commitWork (child (fibers w1 f)) w1)
                                    (\<lambda>r. case r of
                                            Inl e \<Rightarrow> Some (Inl e)
                                          | Inr w2 \<Rightarrow>
                                              commitWork (sibling (fibers w2 f)) w2))))"

text \<open>\<^verbatim>\<open>deletions.forEach(commitWork)\<close>.\<close>

fun forEachCommitWork :: "ref list \<Rightarrow> 'v world \<Rightarrow> (error + 'v world) option" where
  "forEachCommitWork [] w = Some (Inr w)"
| "forEachCommitWork (f # fs) w =
     Option.bind (commitWork (Some f) w)
       (\<lambda>r. case r of Inl e \<Rightarrow> Some (Inl e) | Inr w1 \<Rightarrow> forEachCommitWork fs w1)"

definition commitRoot :: "'v world \<Rightarrow> (error + 'v world) option" where
  "commitRoot w =
     (case deletions w of
        None \<Rightarrow> Some (Inl TypeError)
      | Some ds \<Rightarrow>
          Option.bind (forEachCommitWork ds w)
            (\<lambda>r. case r of
                    Inl e \<Rightarrow> Some (Inl e)
                  | Inr w1 \<Rightarrow>
                      (case wipRoot w1 of
                         None \<Rightarrow> Some (Inl TypeError)
                       | Some root \<Rightarrow>
                           Option.bind (commitWork (child (fibers w1 root)) w1)
                             (\<lambda>r. case r of
                                     Inl e \<Rightarrow> Some (Inl e)
                                   | Inr w2 \<Rightarrow>
                                       Some (Inr (w2\<lparr>currentRoot := wipRoot w2,
                                                     wipRoot := None\<rparr>))))))"

section \<open>Entry point and scheduler\<close>

definition render :: "element \<Rightarrow> nref \<Rightarrow> 'v world \<Rightarrow> 'v world" where
  "render element container w =
     (let r = fiberCount w;
          root = \<lparr>type = None, props = [(''children'', Elems [Some element])],
                  dom = Some container, parent = None, child = None, sibling = None,
                  alternate = currentRoot w, effectTag = None, hooks = None\<rparr>
      in w\<lparr>fibers := (fibers w)(r := root), fiberCount := r + 1,
           wipRoot := Some r, deletions := Some [], nextUnitOfWork := Some r\<rparr>)"

text \<open>
  The \<^verbatim>\<open>while\<close> loop of \<^verbatim>\<open>workLoop\<close>. \<open>deadline k\<close> is what the \<open>k\<close>-th call of
  \<^verbatim>\<open>deadline.timeRemaining()\<close> in this slice returns.
\<close>

partial_function (option) workWhile ::
  "(nat \<Rightarrow> props \<Rightarrow> 'v comp) \<Rightarrow> (nat \<Rightarrow> int) \<Rightarrow> nat \<Rightarrow> bool \<Rightarrow> 'v world
     \<Rightarrow> (error + 'v world) option" where
  "workWhile comps deadline k shouldYield w =
     (case (if shouldYield then None else nextUnitOfWork w) of
        None \<Rightarrow> Some (Inr w)
      | Some f \<Rightarrow>
          Option.bind (performUnitOfWork comps f w)
            (\<lambda>r. case r of
                    Inl e \<Rightarrow> Some (Inl e)
                  | Inr (n, w1) \<Rightarrow>
                      workWhile comps deadline (k + 1) (deadline k < 1)
                        (w1\<lparr>nextUnitOfWork := n\<rparr>)))"

text \<open>
  One call of \<^verbatim>\<open>workLoop\<close>. Its last statement asks the host for the next call; the
  host's queue of idle callbacks is not part of the model.
\<close>

definition workLoop ::
  "(nat \<Rightarrow> props \<Rightarrow> 'v comp) \<Rightarrow> (nat \<Rightarrow> int) \<Rightarrow> 'v world \<Rightarrow> (error + 'v world) option" where
  "workLoop comps deadline w =
     Option.bind (workWhile comps deadline 0 False w)
       (\<lambda>r. case r of
               Inl e \<Rightarrow> Some (Inl e)
             | Inr w1 \<Rightarrow>
                 if nextUnitOfWork w1 = None \<and> wipRoot w1 \<noteq> None then commitRoot w1
                 else Some (Inr w1))"

text \<open>
  The state of the module once it is loaded: no fiber, no hook, and the host's tree with
  the container alone, at address \<open>0\<close>.
\<close>

definition blankFiber :: fiber where
  "blankFiber =
     \<lparr>type = None, props = [], dom = None, parent = None, child = None, sibling = None,
      alternate = None, effectTag = None, hooks = None\<rparr>"

definition initialWorld :: "'v \<Rightarrow> 'v world" where
  "initialWorld v =
     \<lparr>fibers = (\<lambda>r. blankFiber), fiberCount = 0,
      hookStore = (\<lambda>h. \<lparr>state = v, queue = []\<rparr>), hookCount = 0,
      nodes = (\<lambda>d. newNode ''div''), nodeCount = 1,
      nextUnitOfWork = None, currentRoot = None, wipRoot = None, deletions = None,
      wipFiber = None, hookIndex = None\<rparr>"

section \<open>The element helper and the program of the source\<close>

text \<open>
  \<^verbatim>\<open>{...props, children: c}\<close>: the key keeps its place when \<^verbatim>\<open>props\<close> has it already, and
  is added at the end otherwise.
\<close>

fun assign :: "string \<Rightarrow> pval \<Rightarrow> props \<Rightarrow> props" where
  "assign key v [] = [(key, v)]"
| "assign key v ((k, x) # ps) =
     (if k = key then (key, v) # ps else (k, x) # assign key v ps)"

text \<open>
  A child argument of \<^verbatim>\<open>createElement\<close>: an element, \<^verbatim>\<open>null\<close>, or a value whose \<^verbatim>\<open>typeof\<close>
  is not \<^verbatim>\<open>"object"\<close>. An element and \<^verbatim>\<open>null\<close> are kept as they are (\<^verbatim>\<open>typeof null\<close> is
  \<^verbatim>\<open>"object"\<close>); the other values are wrapped in a text element. An array among the
  child arguments is outside the data model.
\<close>

datatype prim = NoValue | Boolean bool | Number int | Text string | Function nat

fun ofPrim :: "prim \<Rightarrow> pval" where
  "ofPrim NoValue = Undefined"
| "ofPrim (Boolean b) = Bool b"
| "ofPrim (Number n) = Num n"
| "ofPrim (Text s) = Str s"
| "ofPrim (Function f) = Fun f"

datatype childArg = Object element | NullChild | Primitive prim

definition createTextElement :: "pval \<Rightarrow> element" where
  "createTextElement text =
     Element (Tag ''TEXT_ELEMENT'') [(''nodeValue'', text), (''children'', Elems [])]"

definition createElement :: "etype \<Rightarrow> props \<Rightarrow> childArg list \<Rightarrow> element" where
  "createElement ty ps cs =
     Element ty
       (assign ''children''
          (Elems (map (\<lambda>c. case c of
                              Object e \<Rightarrow> Some e
                            | NullChild \<Rightarrow> None
                            | Primitive v \<Rightarrow> Some (createTextElement (ofPrim v))) cs))
          ps)"

text \<open>
  The component \<^verbatim>\<open>Counter\<close> of the source. Its click handler is a new closure at every
  call; it is named by the update capability it calls.
\<close>

definition Counter :: "props \<Rightarrow> int comp" where
  "Counter ps =
     UseState 1 (\<lambda>s setter.
       Return (Some (createElement (Tag ''h1'') [(''onClick'', Fun setter)]
                       [Primitive (Text ''Count: ''), Primitive (Number s)])))"

text \<open>
  A second component, which renders a heading with a text, and the table of the two:
  \<open>Fn 0\<close> is \<^verbatim>\<open>Counter\<close> and every other index is \<open>Heading\<close>.
\<close>

definition Heading :: "props \<Rightarrow> int comp" where
  "Heading ps = Return (Some (createElement (Tag ''h1'') [] [Primitive (Text ''Hello'')]))"

definition components :: "nat \<Rightarrow> props \<Rightarrow> int comp" where
  "components c = (if c = 0 then Counter else Heading)"

section \<open>Vocabulary of the properties\<close>

text \<open>
  \<open>isChain fs start rs\<close>: the fibers \<open>rs\<close> are, in order, the chain that starts at
  \<open>start\<close> and follows \<^verbatim>\<open>sibling\<close> to its end.
\<close>

fun isChain :: "(ref \<Rightarrow> fiber) \<Rightarrow> ref option \<Rightarrow> ref list \<Rightarrow> bool" where
  "isChain fs start [] = (start = None)"
| "isChain fs start (r # rs) = (start = Some r \<and> isChain fs (sibling (fs r)) rs)"

text \<open>The calls of the update capability of one hook with a list of functions, in order.\<close>

fun invokeAll :: "href \<Rightarrow> ('v \<Rightarrow> 'v) list \<Rightarrow> 'v world \<Rightarrow> error + 'v world" where
  "invokeAll h [] w = Inr w"
| "invokeAll h (action # actions) w =
     (case setState h action w of Inl e \<Rightarrow> Inl e | Inr w1 \<Rightarrow> invokeAll h actions w1)"

text \<open>A world differs from another in the host tree only.\<close>

definition onlyNodes :: "'v world \<Rightarrow> 'v world \<Rightarrow> bool" where
  "onlyNodes w w' = (w' = w\<lparr>nodes := nodes w'\<rparr>)"

text \<open>Sequencing of the steps of a scenario: a fault or a divergence ends it.\<close>

definition andThen ::
  "(error + 'v world) option \<Rightarrow> ('v world \<Rightarrow> (error + 'v world) option)
     \<Rightarrow> (error + 'v world) option" where
  "andThen m k = Option.bind m (\<lambda>r. case r of Inl e \<Rightarrow> Some (Inl e) | Inr w \<Rightarrow> k w)"

text \<open>What a scenario is observed through: a projection of the world it ends in.\<close>

definition observe :: "('v world \<Rightarrow> 'a) \<Rightarrow> (error + 'v world) option \<Rightarrow> (error + 'a) option" where
  "observe p m = map_option (map_sum id p) m"

text \<open>A deadline that never runs out, and one that allows a single unit per slice.\<close>

definition unhurried :: "nat \<Rightarrow> int" where
  "unhurried k = 50"

definition hurried :: "nat \<Rightarrow> int" where
  "hurried k = 0"

text \<open>
  The first \<open>k\<close> units of the walk, whatever the slices of \<^verbatim>\<open>workLoop\<close> that process
  them: a unit is one pass of the loop of \<^verbatim>\<open>workLoop\<close>.
\<close>

fun walk :: "(nat \<Rightarrow> props \<Rightarrow> 'v comp) \<Rightarrow> nat \<Rightarrow> 'v world \<Rightarrow> (error + 'v world) option" where
  "walk comps 0 w = Some (Inr w)"
| "walk comps (Suc k) w =
     (case nextUnitOfWork w of
        None \<Rightarrow> Some (Inr w)
      | Some f \<Rightarrow>
          Option.bind (performUnitOfWork comps f w)
            (\<lambda>r. case r of
                    Inl e \<Rightarrow> Some (Inl e)
                  | Inr (n, w1) \<Rightarrow> walk comps k (w1\<lparr>nextUnitOfWork := n\<rparr>)))"

text \<open>The state that the queue of a hook gives: its functions applied in order.\<close>

definition replay :: "'v hook \<Rightarrow> 'v" where
  "replay hk = fold (\<lambda>action s. action s) (queue hk) (state hk)"

text \<open>
  What a walk keeps. The fibers of a generation are those from the address \<open>B\<close> of its
  root on: \<open>linksWithin B w\<close> says that their links stay among them, \<open>walkInv\<close> adds that
  the next unit is one of them. \<open>keepsHooks\<close>, \<open>unitPrep\<close> and \<open>walkFrame\<close> say what a
  reconciliation, the work before it and a walk leave as it is.
\<close>

definition within :: "nat \<Rightarrow> nat \<Rightarrow> ref option \<Rightarrow> bool" where
  "within B n l = (case l of None \<Rightarrow> True | Some x \<Rightarrow> B \<le> x \<and> x < n)"

definition linksWithin :: "nat \<Rightarrow> 'v world \<Rightarrow> bool" where
  "linksWithin B w =
     (\<forall>r. B \<le> r \<and> r < fiberCount w \<longrightarrow>
        within B (fiberCount w) (parent (fibers w r))
        \<and> within B (fiberCount w) (child (fibers w r))
        \<and> within B (fiberCount w) (sibling (fibers w r)))"

definition walkInv :: "nat \<Rightarrow> 'v world \<Rightarrow> bool" where
  "walkInv B w = (linksWithin B w \<and> within B (fiberCount w) (nextUnitOfWork w))"

definition keepsHooks :: "'v world \<Rightarrow> 'v world \<Rightarrow> bool" where
  "keepsHooks w w' =
     (hookStore w' = hookStore w \<and> hookCount w' = hookCount w
      \<and> fiberCount w \<le> fiberCount w'
      \<and> (\<forall>r < fiberCount w. hooks (fibers w' r) = hooks (fibers w r)
            \<and> alternate (fibers w' r) = alternate (fibers w r)
            \<and> type (fibers w' r) = type (fibers w r)))"

definition unitPrep :: "ref \<Rightarrow> 'v world \<Rightarrow> 'v world \<Rightarrow> bool" where
  "unitPrep f w w' =
     (fiberCount w' = fiberCount w
      \<and> (\<forall>r. parent (fibers w' r) = parent (fibers w r)
             \<and> child (fibers w' r) = child (fibers w r)
             \<and> sibling (fibers w' r) = sibling (fibers w r))
      \<and> (\<forall>r. r \<noteq> f \<longrightarrow> hooks (fibers w' r) = hooks (fibers w r))
      \<and> (\<forall>h < hookCount w. hookStore w' h = hookStore w h)
      \<and> hookCount w \<le> hookCount w')"

definition walkFrame :: "nat \<Rightarrow> 'v world \<Rightarrow> 'v world \<Rightarrow> bool" where
  "walkFrame B w w' =
     ((\<forall>h < hookCount w. hookStore w' h = hookStore w h)
      \<and> hookCount w \<le> hookCount w' \<and> fiberCount w \<le> fiberCount w'
      \<and> (\<forall>r < B. hooks (fibers w' r) = hooks (fibers w r)))"

text \<open>
  The specification of the reconciler, for a parent \<open>wip\<close>, the new elements and the
  old chain \<open>olds\<close> in the world \<open>w0\<close> of the call. \<open>sameTypeAt\<close>: position \<open>i\<close> has an element
  and an old fiber, of equal types.
\<close>

definition sameTypeAt :: "(ref \<Rightarrow> fiber) \<Rightarrow> element list \<Rightarrow> ref list \<Rightarrow> nat \<Rightarrow> bool" where
  "sameTypeAt fs elements olds i =
     (i < length elements \<and> i < length olds
      \<and> Some (el_type (elements ! i)) = type (fs (olds ! i)))"

text \<open>The old fibers without a same-type element among the first \<open>i\<close> positions, in order.\<close>

definition removedOlds :: "(ref \<Rightarrow> fiber) \<Rightarrow> element list \<Rightarrow> ref list \<Rightarrow> nat \<Rightarrow> ref list" where
  "removedOlds fs elements olds i =
     map (\<lambda>j. olds ! j)
       (filter (\<lambda>j. \<not> sameTypeAt fs elements olds j) [0..<min i (length olds)])"

text \<open>The fiber created for position \<open>i\<close>, before it is linked to its successor.\<close>

definition producedUnit :: "(ref \<Rightarrow> fiber) \<Rightarrow> ref \<Rightarrow> element list \<Rightarrow> ref list \<Rightarrow> nat \<Rightarrow> fiber" where
  "producedUnit fs wip elements olds i =
     (if sameTypeAt fs elements olds i then
        \<lparr>type = type (fs (olds ! i)), props = el_props (elements ! i),
         dom = dom (fs (olds ! i)), parent = Some wip, child = None, sibling = None,
         alternate = Some (olds ! i), effectTag = Some UPDATE, hooks = None\<rparr>
      else
        \<lparr>type = Some (el_type (elements ! i)), props = el_props (elements ! i),
         dom = None, parent = Some wip, child = None, sibling = None,
         alternate = None, effectTag = Some PLACEMENT, hooks = None\<rparr>)"

text \<open>
  The fiber store after \<open>i\<close> iterations of the loop: the fibers that existed, with the
  parent's \<^verbatim>\<open>child\<close> and the tags of the removed ones changed; the fibers created, linked
  in a chain; the rest of the store.
\<close>

definition reconciledFibers ::
  "'v world \<Rightarrow> ref \<Rightarrow> element list \<Rightarrow> ref list \<Rightarrow> nat \<Rightarrow> ref \<Rightarrow> fiber" where
  "reconciledFibers w0 wip elements olds i r =
     (let n0 = fiberCount w0; k = min i (length elements) in
      if r < n0 then
        (fibers w0 r)
          \<lparr>child := (if r = wip \<and> 0 < i then (if elements = [] then None else Some n0)
                     else child (fibers w0 r)),
           effectTag := (if r \<in> set (removedOlds (fibers w0) elements olds i) then Some DELETION
                         else effectTag (fibers w0 r))\<rparr>
      else if r < n0 + k then
        (producedUnit (fibers w0) wip elements olds (r - n0))
          \<lparr>sibling := (if r + 1 < n0 + k then Some (r + 1) else None)\<rparr>
      else fibers w0 r)"

text \<open>The three updates of iteration \<open>i\<close> on a fiber store.\<close>

definition stepFibers ::
  "'v world \<Rightarrow> ref \<Rightarrow> element list \<Rightarrow> ref list \<Rightarrow> nat \<Rightarrow> (ref \<Rightarrow> fiber) \<Rightarrow> ref \<Rightarrow> fiber" where
  "stepFibers w0 wip elements olds i F =
     (let n = fiberCount w0 + i;
          F1 = (if i < length elements
                then F(n := producedUnit (fibers w0) wip elements olds i) else F);
          F2 = (if i < length olds \<and> \<not> sameTypeAt (fibers w0) elements olds i
                then F1(olds ! i := (F1 (olds ! i))\<lparr>effectTag := Some DELETION\<rparr>) else F1)
      in if i = 0 then
           F2(wip := (F2 wip)\<lparr>child := (if i < length elements then Some n else None)\<rparr>)
         else if i < length elements then
           F2(n - 1 := (F2 (n - 1))\<lparr>sibling := Some n\<rparr>)
         else F2)"

text \<open>The world after \<open>i\<close> iterations, and after the whole loop.\<close>

definition reconciledUpTo ::
  "'v world \<Rightarrow> ref \<Rightarrow> element list \<Rightarrow> ref list \<Rightarrow> nat \<Rightarrow> 'v world" where
  "reconciledUpTo w0 wip elements olds i =
     w0\<lparr>fibers := reconciledFibers w0 wip elements olds i,
        fiberCount := fiberCount w0 + min i (length elements),
        deletions := map_option (\<lambda>ds. ds @ removedOlds (fibers w0) elements olds i)
                       (deletions w0)\<rparr>"

text \<open>
  The loop runs once more for each of the \<open>n\<close> \<^verbatim>\<open>null\<close> entries that end the sequence
  of children.
\<close>

definition reconciled ::
  "'v world \<Rightarrow> ref \<Rightarrow> element list \<Rightarrow> nat \<Rightarrow> ref list \<Rightarrow> 'v world" where
  "reconciled w0 wip elements n olds =
     reconciledUpTo w0 wip elements olds (max (length elements + n) (length olds))"

text \<open>
  \<open>isAncestry fs start rs\<close>: the fibers \<open>rs\<close> are \<open>start\<close>, its parent, and so on up to
  the root. \<open>nearestSibling\<close> is the sibling of the first of them that has one.
\<close>

fun isAncestry :: "(ref \<Rightarrow> fiber) \<Rightarrow> ref option \<Rightarrow> ref list \<Rightarrow> bool" where
  "isAncestry fs start [] = (start = None)"
| "isAncestry fs start (r # rs) = (start = Some r \<and> isAncestry fs (parent (fs r)) rs)"

definition nearestSibling :: "(ref \<Rightarrow> fiber) \<Rightarrow> ref list \<Rightarrow> ref option" where
  "nearestSibling fs path =
     (case find (\<lambda>a. sibling (fs a) \<noteq> None) path of
        None \<Rightarrow> None
      | Some a \<Rightarrow> sibling (fs a))"

section \<open>Scenarios\<close>

text \<open>The world a scenario ends in; the initial world stands for a fault or a divergence.\<close>

definition ending :: "(error + int world) option \<Rightarrow> int world" where
  "ending m = (case m of Some (Inr w) \<Rightarrow> w | _ \<Rightarrow> initialWorld 0)"

text \<open>
  The program of the source: \<^verbatim>\<open>render(<Counter />, container)\<close>, then one call of
  \<^verbatim>\<open>workLoop\<close> with time to spare, which walks the tree and commits it.
\<close>

definition mounted :: "(error + int world) option" where
  "mounted =
     workLoop components unhurried (render (createElement (Fn 0) [] []) 0 (initialWorld 0))"

text \<open>Three calls of the update capability of the counter's hook.\<close>

definition clicked :: "(error + int world) option" where
  "clicked =
     andThen mounted
       (\<lambda>w. case invokeAll 0 [\<lambda>c. c + 1, \<lambda>c. c * 2, \<lambda>c. c + 3] w of
               Inl e \<Rightarrow> Some (Inl e)
             | Inr w1 \<Rightarrow> Some (Inr w1))"

text \<open>
  The next generation at the moment its walk has reached the counter and
  \<^verbatim>\<open>updateFunctionComponent\<close> has made it the fiber at work: the root is processed, and
  \<^verbatim>\<open>wipFiber\<close>, \<^verbatim>\<open>hookIndex\<close> and \<^verbatim>\<open>wipFiber.hooks\<close> are assigned.
\<close>

definition counterAtWork :: "(error + int world) option" where
  "counterAtWork =
     andThen clicked
       (\<lambda>w. case nextUnitOfWork w of
               None \<Rightarrow> Some (Inl TypeError)
             | Some root \<Rightarrow>
                 Option.bind (performUnitOfWork components root w)
                   (\<lambda>r. case r of
                           Inl e \<Rightarrow> Some (Inl e)
                         | Inr (n, w1) \<Rightarrow>
                             (case n of
                                None \<Rightarrow> Some (Inl TypeError)
                              | Some f \<Rightarrow>
                                  Some (Inr (w1\<lparr>wipFiber := Some f, hookIndex := Some 0,
                                               fibers := (fibers w1)
                                                 (f := (fibers w1 f)\<lparr>hooks := Some []\<rparr>)\<rparr>)))))"

text \<open>
  The next generation after one unit of its walk: the root is processed and the fiber
  of the counter (address 8) is next.
\<close>

definition counterReached :: "(error + int world) option" where
  "counterReached = andThen clicked (walk components 1)"

text \<open>The whole next generation: one call of \<^verbatim>\<open>workLoop\<close> after the three calls.\<close>

definition rerendered :: "(error + int world) option" where
  "rerendered = andThen clicked (workLoop components unhurried)"

text \<open>
  A page that is a component with a heading, committed; then \<^verbatim>\<open>render\<close> of a page that
  is a \<^verbatim>\<open>div\<close>, walked to the end, and its commit.
\<close>

definition headed :: "(error + int world) option" where
  "headed =
     workLoop components unhurried (render (createElement (Fn 1) [] []) 0 (initialWorld 0))"

definition replacedWalk :: "(error + int world) option" where
  "replacedWalk =
     andThen headed
       (\<lambda>w. workWhile components unhurried 0 False
               (render (createElement (Tag ''div'') [] []) 0 w))"

definition replaced :: "(error + int world) option" where
  "replaced = andThen replacedWalk commitRoot"

text \<open>
  Deadlines that stop the walk after two and after four units, and the walks they stop:
  the walk of the first page with its last text fiber (address 4) next, and the walk
  after the three calls with the fiber of the heading (address 9) next.
\<close>

definition twoUnits :: "nat \<Rightarrow> int" where
  "twoUnits k = (if k = 0 then 50 else 0)"

definition fourUnits :: "nat \<Rightarrow> int" where
  "fourUnits k = (if k < 3 then 50 else 0)"

definition firstWalkPaused :: "(error + int world) option" where
  "firstWalkPaused =
     workWhile components fourUnits 0 False
       (render (createElement (Fn 0) [] []) 0 (initialWorld 0))"

definition secondWalkPaused :: "(error + int world) option" where
  "secondWalkPaused = andThen clicked (workWhile components twoUnits 0 False)"

text \<open>New children for the heading: a text, and two elements.\<close>

definition threeChildren :: "element list" where
  "threeChildren =
     [createTextElement (Str ''Count: ''), createElement (Tag ''b'') [] [],
      createElement (Tag ''i'') [] []]"

text \<open>
  A page whose \<^verbatim>\<open>div\<close> has two children, committed, and then \<^verbatim>\<open>render\<close> of the \<^verbatim>\<open>div\<close>
  without children: the loop of \<^verbatim>\<open>workLoop\<close> alone, and the whole call of \<^verbatim>\<open>workLoop\<close>.
\<close>

definition emptiedWalk :: "(error + int world) option" where
  "emptiedWalk =
     andThen
       (workLoop components unhurried
          (render (createElement (Tag ''div'') []
                     [Object (createElement (Tag ''p'') [] []),
                      Object (createElement (Tag ''span'') [] [])]) 0 (initialWorld 0)))
       (\<lambda>w. workWhile components unhurried 0 False
               (render (createElement (Tag ''div'') [] []) 0 w))"

definition emptied :: "(error + int world) option" where
  "emptied =
     andThen
       (workLoop components unhurried
          (render (createElement (Tag ''div'') []
                     [Object (createElement (Tag ''p'') [] []),
                      Object (createElement (Tag ''span'') [] [])]) 0 (initialWorld 0)))
       (\<lambda>w. workLoop components unhurried (render (createElement (Tag ''div'') [] []) 0 w))"

text \<open>
  A \<^verbatim>\<open>div\<close> with a click handler, an \<^verbatim>\<open>id\<close> and a \<^verbatim>\<open>title\<close>, mounted, and the element of
  its next render.
\<close>

definition cardBefore :: element where
  "cardBefore =
     createElement (Tag ''div'')
       [(''onClick'', Fun 1), (''id'', Str ''a''), (''title'', Str ''t'')] []"

definition cardAfter :: element where
  "cardAfter = createElement (Tag ''div'') [(''onClick'', Fun 2), (''id'', Str ''b'')] []"

definition cardMounted :: "(error + int world) option" where
  "cardMounted = workLoop components unhurried (render cardBefore 0 (initialWorld 0))"

text \<open>
  A \<^verbatim>\<open>div\<close> with the property \<^verbatim>\<open>toString\<close>, committed, and then \<^verbatim>\<open>render\<close> of the \<^verbatim>\<open>div\<close>
  without the property and one call of \<^verbatim>\<open>workLoop\<close>.
\<close>

definition namedBefore :: element where
  "namedBefore = createElement (Tag ''div'') [(''toString'', Str ''a'')] []"

definition namedAfter :: element where
  "namedAfter = createElement (Tag ''div'') [] []"

definition renamed :: "(error + int world) option" where
  "renamed =
     andThen (workLoop components unhurried (render namedBefore 0 (initialWorld 0)))
       (\<lambda>w. workLoop components unhurried (render namedAfter 0 w))"

text \<open>
  A \<^verbatim>\<open>div\<close> whose only child is \<^verbatim>\<open>null\<close>: the walk of the page, stopped before the fiber
  of the \<^verbatim>\<open>div\<close> (address 1).
\<close>

definition nullChildPaused :: "(error + int world) option" where
  "nullChildPaused =
     workWhile components hurried 0 False
       (render (createElement (Tag ''div'') [] [NullChild]) 0 (initialWorld 0))"

section \<open>Properties\<close>

subsection \<open>Results that are sums inside an option\<close>

lemma bind_sum_Inr:
  "(Option.bind m (\<lambda>r. case r of Inl e \<Rightarrow> Some (Inl e) | Inr x \<Rightarrow> k x) = Some (Inr y))
   = (\<exists>x. m = Some (Inr x) \<and> k x = Some (Inr y))"
  by (cases m) (auto split: sum.splits)

subsection \<open>The prop diff\<close>

lemmas run_simps =
  reconcileLoop.simps nextSibling.simps commitDeletion.simps domParentOf.simps
  commitWork.simps workWhile.simps workLoop_def render_def initialWorld_def
  performUnitOfWork_def updateFunctionComponent_def updateHostComponent_def
  reconcileChildren_def reconcileStep_def commitRoot_def commitEffect_def createDom_def
  updateDom_def updateDomCalls_def isFunctionComponent_def blankFiber_def newNode_def
  appendChild_def removeChild_def detach_def children_def get_def keys_def has_def
  isEvent_def isProperty_def isNew_def isGone_def eventType_def Let_def createElement_def
  createTextElement_def Counter_def Heading_def components_def andThen_def
  unhurried_def hurried_def useState_def setState_def oldHookOf_def toLowerCase_def
  toLowerChar_def substring_def elementAt_def inheritedKeys_def upperCase_def
  lowerCase_def

lemma attrs_fold_untouched:
  "(\<And>v. SetField key v \<notin> set cs) \<Longrightarrow> attrs (fold hostCall cs n) key = attrs n key"
proof (induction cs arbitrary: n)
  case Nil
  then show ?case by simp
next
  case (Cons c cs)
  have "attrs (fold hostCall cs (hostCall c n)) key = attrs (hostCall c n) key"
    using Cons.prems by (intro Cons.IH) auto
  moreover have "attrs (hostCall c n) key = attrs n key"
    using Cons.prems by (cases c) auto
  ultimately show ?case by simp
qed

lemma attrs_fold_written:
  "SetField key v \<in> set cs \<Longrightarrow> (\<And>v'. SetField key v' \<in> set cs \<Longrightarrow> v' = v)
   \<Longrightarrow> attrs (fold hostCall cs n) key = Some v"
proof (induction cs arbitrary: n)
  case Nil
  then show ?case by simp
next
  case (Cons c cs)
  show ?case
  proof (cases "SetField key v \<in> set cs")
    case True
    then show ?thesis using Cons.prems(2) by (simp add: Cons.IH)
  next
    case False
    then have c: "c = SetField key v" using Cons.prems(1) by simp
    have "\<And>v'. SetField key v' \<notin> set cs"
      using False Cons.prems(2) by auto
    then have "attrs (fold hostCall cs (hostCall c n)) key = attrs (hostCall c n) key"
      by (rule attrs_fold_untouched)
    then show ?thesis by (simp add: c)
  qed
qed

lemma toLowerCase_substring: "substring 2 (toLowerCase name) = toLowerCase (substring 2 name)"
  by (simp add: substring_def toLowerCase_def drop_map)

lemma set_updateDomCalls:
  "set (updateDomCalls P N) =
     {RemoveEventListener (eventType k) (get P k) | k.
        k \<in> set (keys P) \<and> isEvent k \<and> (\<not> has N k \<or> isNew P N k)}
   \<union> {SetField k (Str '''') | k. k \<in> set (keys P) \<and> isProperty k \<and> \<not> has N k}
   \<union> {SetField k (get N k) | k. k \<in> set (keys N) \<and> isProperty k \<and> isNew P N k}
   \<union> {AddEventListener (eventType k) (get N k) | k.
        k \<in> set (keys N) \<and> isEvent k \<and> isNew P N k}"
  by (auto simp: updateDomCalls_def isGone_def)

lemma fold_hostCall_append:
  "fold hostCall (xs @ ys) n = fold hostCall ys (fold hostCall xs n)"
  by simp

lemma listeners_fold_remove:
  "set (listeners (fold hostCall (map (\<lambda>k. RemoveEventListener (t k) (h k)) ks) n))
     = set (listeners n) - {(t k, h k) | k. k \<in> set ks}"
proof (induction ks arbitrary: n)
  case Nil
  then show ?case by simp
next
  case (Cons k ks)
  show ?case unfolding list.map fold_simps Cons.IH by auto
qed

lemma listeners_fold_set:
  "listeners (fold hostCall (map (\<lambda>k. SetField k (v k)) ks) n) = listeners n"
  by (induction ks arbitrary: n) simp_all

lemma listeners_fold_add:
  "set (listeners (fold hostCall (map (\<lambda>k. AddEventListener (t k) (h k)) ks) n))
     = set (listeners n) \<union> {(t k, h k) | k. k \<in> set ks \<and> h k \<noteq> Undefined \<and> h k \<noteq> Null}"
proof (induction ks arbitrary: n)
  case Nil
  then show ?case by simp
next
  case (Cons k ks)
  show ?case unfolding list.map fold_simps Cons.IH by auto
qed

lemma listeners_updateDomCalls:
  "set (listeners (fold hostCall (updateDomCalls P N) n))
     = (set (listeners n)
          - {(eventType k, get P k) | k.
               k \<in> set (keys P) \<and> isEvent k \<and> (\<not> has N k \<or> isNew P N k)})
       \<union> {(eventType k, get N k) | k.
            k \<in> set (keys N) \<and> isEvent k \<and> isNew P N k
            \<and> get N k \<noteq> Undefined \<and> get N k \<noteq> Null}"
  unfolding updateDomCalls_def fold_hostCall_append
    listeners_fold_add listeners_fold_set listeners_fold_remove
  by auto

text \<open>
  What \<^verbatim>\<open>updateDom\<close> does, for previous props \<open>P\<close> and next props \<open>N\<close>. It detaches the old
  listener of every own key of \<open>P\<close> that starts with \<^verbatim>\<open>on\<close> and is not \<^verbatim>\<open>in\<close> \<open>N\<close> or has
  another value there; resets to the empty string every plain own key of \<open>P\<close> that is
  not \<^verbatim>\<open>in\<close> \<open>N\<close>; sets to the value of \<open>N\<close> every plain own key of \<open>N\<close> whose value
  differs from what \<open>P[key]\<close> reads; attaches the listener of every own key of \<open>N\<close> that
  starts with \<^verbatim>\<open>on\<close> and is new or changed. The event name is the key without its first
  two characters, in lower case. The key \<^verbatim>\<open>children\<close> is never set as a property of the
  node. The last two parts give the listeners and the properties of the node cardAfter the
  call. Here \<^verbatim>\<open>in\<close> and \<open>P[key]\<close> are those of the language: they see the members that
  \<open>N\<close> and \<open>P\<close> inherit.
\<close>

theorem updateDom_diff_rules:
  "(\<forall>key \<in> set (keys P).
      take 2 key = ''on'' \<and> (\<not> has N key \<or> get P key \<noteq> get N key) \<longrightarrow>
      RemoveEventListener (toLowerCase (drop 2 key)) (get P key) \<in> set (updateDomCalls P N))
   \<and> (\<forall>key \<in> set (keys P).
      key \<noteq> ''children'' \<and> take 2 key \<noteq> ''on'' \<and> \<not> has N key \<longrightarrow>
      SetField key (Str '''') \<in> set (updateDomCalls P N)
      \<and> attrs (nodes (updateDom d P N w) d) key = Some (Str ''''))
   \<and> (\<forall>key \<in> set (keys N).
      key \<noteq> ''children'' \<and> take 2 key \<noteq> ''on'' \<and> get P key \<noteq> get N key \<longrightarrow>
      SetField key (get N key) \<in> set (updateDomCalls P N)
      \<and> attrs (nodes (updateDom d P N w) d) key = Some (get N key))
   \<and> (\<forall>key \<in> set (keys N).
      take 2 key = ''on'' \<and> get P key \<noteq> get N key \<longrightarrow>
      AddEventListener (toLowerCase (drop 2 key)) (get N key) \<in> set (updateDomCalls P N))
   \<and> (\<forall>v. SetField ''children'' v \<notin> set (updateDomCalls P N))
   \<and> attrs (nodes (updateDom d P N w) d) ''children'' = attrs (nodes w d) ''children''
   \<and> set (listeners (nodes (updateDom d P N w) d))
       = (set (listeners (nodes w d))
            - {(toLowerCase (drop 2 key), get P key) | key.
                 key \<in> set (keys P) \<and> take 2 key = ''on''
                 \<and> (\<not> has N key \<or> get P key \<noteq> get N key)})
         \<union> {(toLowerCase (drop 2 key), get N key) | key.
              key \<in> set (keys N) \<and> take 2 key = ''on'' \<and> get P key \<noteq> get N key
              \<and> get N key \<noteq> Undefined \<and> get N key \<noteq> Null}
   \<and> (\<forall>key. attrs (nodes (updateDom d P N w) d) key =
         (if key \<in> set (keys N) \<and> key \<noteq> ''children'' \<and> take 2 key \<noteq> ''on''
             \<and> get P key \<noteq> get N key
          then Some (get N key)
          else if key \<in> set (keys P) \<and> key \<noteq> ''children'' \<and> take 2 key \<noteq> ''on''
             \<and> \<not> has N key
          then Some (Str '''')
          else attrs (nodes w d) key))"
proof -
  have ev: "eventType k = toLowerCase (drop 2 k)" for k
    by (simp add: eventType_def toLowerCase_substring) (simp add: substring_def)
  have nochild: "SetField ''children'' v \<notin> set (updateDomCalls P N)" for v
    by (auto simp: set_updateDomCalls isProperty_def)
  have node: "nodes (updateDom d P N w) d = fold hostCall (updateDomCalls P N) (nodes w d)"
    by (simp add: updateDom_def)
  have p1: "RemoveEventListener (toLowerCase (drop 2 key)) (get P key) \<in> set (updateDomCalls P N)"
    if "key \<in> set (keys P)" "take 2 key = ''on''" "\<not> has N key \<or> get P key \<noteq> get N key"
    for key
    using that by (auto simp: set_updateDomCalls isEvent_def isNew_def ev[symmetric])
  have p4: "AddEventListener (toLowerCase (drop 2 key)) (get N key) \<in> set (updateDomCalls P N)"
    if "key \<in> set (keys N)" "take 2 key = ''on''" "get P key \<noteq> get N key" for key
    using that by (auto simp: set_updateDomCalls isEvent_def isNew_def ev[symmetric])
  have p2: "SetField key (Str '''') \<in> set (updateDomCalls P N)
      \<and> attrs (nodes (updateDom d P N w) d) key = Some (Str '''')"
    if k: "key \<in> set (keys P)" "key \<noteq> ''children''" "take 2 key \<noteq> ''on''" "\<not> has N key"
    for key
  proof -
    have m: "SetField key (Str '''') \<in> set (updateDomCalls P N)"
      using k by (auto simp: set_updateDomCalls isEvent_def isProperty_def)
    have u: "v' = Str ''''" if "SetField key v' \<in> set (updateDomCalls P N)" for v'
      using that k by (auto simp: set_updateDomCalls has_def)
    show ?thesis using m attrs_fold_written[OF m u] by (simp add: node)
  qed
  have p3: "SetField key (get N key) \<in> set (updateDomCalls P N)
      \<and> attrs (nodes (updateDom d P N w) d) key = Some (get N key)"
    if k: "key \<in> set (keys N)" "key \<noteq> ''children''" "take 2 key \<noteq> ''on''"
      "get P key \<noteq> get N key" for key
  proof -
    have m: "SetField key (get N key) \<in> set (updateDomCalls P N)"
      using k by (auto simp: set_updateDomCalls isEvent_def isProperty_def isNew_def)
    have u: "v' = get N key" if "SetField key v' \<in> set (updateDomCalls P N)" for v'
      using that k by (auto simp: set_updateDomCalls has_def)
    show ?thesis using m attrs_fold_written[OF m u] by (simp add: node)
  qed
  have p5: "attrs (nodes (updateDom d P N w) d) key = attrs (nodes w d) key"
    if "\<not> (key \<in> set (keys N) \<and> key \<noteq> ''children'' \<and> take 2 key \<noteq> ''on''
            \<and> get P key \<noteq> get N key)"
       "\<not> (key \<in> set (keys P) \<and> key \<noteq> ''children'' \<and> take 2 key \<noteq> ''on'' \<and> \<not> has N key)"
    for key
  proof -
    have "SetField key v \<notin> set (updateDomCalls P N)" for v
      using that by (auto simp: set_updateDomCalls isEvent_def isProperty_def isNew_def)
    then show ?thesis unfolding node by (rule attrs_fold_untouched)
  qed
  have p6: "attrs (nodes (updateDom d P N w) d) ''children'' = attrs (nodes w d) ''children''"
    unfolding node by (rule attrs_fold_untouched) (rule nochild)
  have p7: "set (listeners (nodes (updateDom d P N w) d))
       = (set (listeners (nodes w d))
            - {(toLowerCase (drop 2 key), get P key) | key.
                 key \<in> set (keys P) \<and> take 2 key = ''on''
                 \<and> (\<not> has N key \<or> get P key \<noteq> get N key)})
         \<union> {(toLowerCase (drop 2 key), get N key) | key.
              key \<in> set (keys N) \<and> take 2 key = ''on'' \<and> get P key \<noteq> get N key
              \<and> get N key \<noteq> Undefined \<and> get N key \<noteq> Null}"
    unfolding node listeners_updateDomCalls by (simp add: isEvent_def isNew_def ev)
  have p8: "attrs (nodes (updateDom d P N w) d) key =
         (if key \<in> set (keys N) \<and> key \<noteq> ''children'' \<and> take 2 key \<noteq> ''on''
             \<and> get P key \<noteq> get N key
          then Some (get N key)
          else if key \<in> set (keys P) \<and> key \<noteq> ''children'' \<and> take 2 key \<noteq> ''on''
             \<and> \<not> has N key
          then Some (Str '''')
          else attrs (nodes w d) key)" for key
    using p2[of key] p3[of key] p5[of key] by (simp split: if_splits)
  show ?thesis
    apply (intro conjI ballI allI impI)
    using p1 apply blast
    using p2 apply blast
    using p2 apply blast
    using p3 apply blast
    using p3 apply blast
    using p4 apply blast
    apply (rule nochild)
    apply (rule p6)
    apply (rule p7)
    apply (rule p8)
    done
qed

lemma Collect_keys: "{f k | k. k \<in> set ks \<and> Q k} = set (map f (filter Q ks))"
  by auto

lemma cardMounted_run:
  "\<exists>w. cardMounted = Some (Inr w) \<and> listeners (nodes w 1) = [(''click'', Fun 1)]
     \<and> attrs (nodes w 1) ''children'' = None \<and> attrs (nodes w 1) ''id'' = Some (Str ''a'')"
  by (simp add: cardMounted_def cardBefore_def run_simps)

text \<open>
  On a node with the listener of the key \<^verbatim>\<open>onClick\<close> and the properties \<^verbatim>\<open>id\<close> and
  \<^verbatim>\<open>title\<close>: the listener is replaced, \<^verbatim>\<open>id\<close> is set and \<^verbatim>\<open>title\<close> is reset.
\<close>

theorem updateDom_diff_rules_witness:
  "set (listeners (nodes (updateDom 1 (el_props cardBefore) (el_props cardAfter) (ending cardMounted)) 1))
     = {(''click'', Fun 2)}
   \<and> listeners (nodes (ending cardMounted) 1) = [(''click'', Fun 1)]
   \<and> attrs (nodes (updateDom 1 (el_props cardBefore) (el_props cardAfter) (ending cardMounted)) 1) ''title''
     = Some (Str '''')
   \<and> attrs (nodes (updateDom 1 (el_props cardBefore) (el_props cardAfter) (ending cardMounted)) 1) ''id''
     = Some (Str ''b'')
   \<and> attrs (nodes (updateDom 1 (el_props cardBefore) (el_props cardAfter) (ending cardMounted)) 1) ''children''
     = None"
proof -
  from cardMounted_run obtain w where w: "cardMounted = Some (Inr w)"
    "listeners (nodes w 1) = [(''click'', Fun 1)]" "attrs (nodes w 1) ''children'' = None"
    by (elim exE conjE)
  have e: "ending cardMounted = w" by (simp add: ending_def w(1))
  have k: "keys (el_props cardBefore) = [''onClick'', ''id'', ''title'', ''children'']"
    "keys (el_props cardAfter) = [''onClick'', ''id'', ''children'']"
    "get (el_props cardBefore) ''onClick'' = Fun 1" "get (el_props cardAfter) ''onClick'' = Fun 2"
    "get (el_props cardBefore) ''id'' = Str ''a''" "get (el_props cardAfter) ''id'' = Str ''b''"
    "\<not> has (el_props cardAfter) ''title''"
    by (simp_all add: cardBefore_def cardAfter_def createElement_def keys_def get_def has_def
        inheritedKeys_def)
  have l: "toLowerCase (drop 2 ''onClick'') = ''click''"
    by (simp add: toLowerCase_def toLowerChar_def upperCase_def lowerCase_def)
  from updateDom_diff_rules[of "el_props cardBefore" "el_props cardAfter" 1 w]
  have a: "attrs (nodes (updateDom 1 (el_props cardBefore) (el_props cardAfter) w) 1) ''title''
        = Some (Str '''')"
    and b: "attrs (nodes (updateDom 1 (el_props cardBefore) (el_props cardAfter) w) 1) ''id''
        = Some (Str ''b'')"
    and c: "attrs (nodes (updateDom 1 (el_props cardBefore) (el_props cardAfter) w) 1) ''children''
        = attrs (nodes w 1) ''children''"
    and d: "set (listeners (nodes (updateDom 1 (el_props cardBefore) (el_props cardAfter) w) 1))
       = (set (listeners (nodes w 1))
            - {(toLowerCase (drop 2 key), get (el_props cardBefore) key) | key.
                 key \<in> set (keys (el_props cardBefore)) \<and> take 2 key = ''on''
                 \<and> (\<not> has (el_props cardAfter) key
                      \<or> get (el_props cardBefore) key \<noteq> get (el_props cardAfter) key)})
         \<union> {(toLowerCase (drop 2 key), get (el_props cardAfter) key) | key.
              key \<in> set (keys (el_props cardAfter)) \<and> take 2 key = ''on''
              \<and> get (el_props cardBefore) key \<noteq> get (el_props cardAfter) key
              \<and> get (el_props cardAfter) key \<noteq> Undefined \<and> get (el_props cardAfter) key \<noteq> Null}"
    using k by simp_all
  have r: "{(toLowerCase (drop 2 key), get (el_props cardBefore) key) | key.
                 key \<in> set (keys (el_props cardBefore)) \<and> take 2 key = ''on''
                 \<and> (\<not> has (el_props cardAfter) key
                      \<or> get (el_props cardBefore) key \<noteq> get (el_props cardAfter) key)}
      = {(''click'', Fun 1)}"
    unfolding Collect_keys k(1) using k(3-) l by simp
  have s: "{(toLowerCase (drop 2 key), get (el_props cardAfter) key) | key.
              key \<in> set (keys (el_props cardAfter)) \<and> take 2 key = ''on''
              \<and> get (el_props cardBefore) key \<noteq> get (el_props cardAfter) key
              \<and> get (el_props cardAfter) key \<noteq> Undefined \<and> get (el_props cardAfter) key \<noteq> Null}
      = {(''click'', Fun 2)}"
    unfolding Collect_keys k(2) using k(3-) l by simp
  note d' = d[unfolded r s]
  show ?thesis unfolding e using a b c d' w(2,3) by simp
qed

text \<open>
  Claim C8, on a case where it fails. The first page is a \<^verbatim>\<open>div\<close> with the property
  \<^verbatim>\<open>toString\<close>, the second page the \<^verbatim>\<open>div\<close> without it. The key is a plain own key of the
  previous props and no own key of the next ones, and the claim resets it. The test of
  \<^verbatim>\<open>isGone\<close> is \<^verbatim>\<open>key in next\<close>, which holds of the name of every member of
  \<^verbatim>\<open>Object.prototype\<close>: \<^verbatim>\<open>updateDom\<close> makes no call (\<open>inherited_key_no_call\<close>), and after
  the commit of the second page, whose fiber of the \<^verbatim>\<open>div\<close> is at address 3, the node has
  the value of the first.
\<close>

lemma renamed_run:
  "\<exists>w. renamed = Some (Inr w) \<and> attrs (nodes w 1) ''toString'' = Some (Str ''a'')
     \<and> childNodes (nodes w 0) = [1] \<and> dom (fibers w 3) = Some 1
     \<and> props (fibers w 3) = [(''children'', Elems [])]"
  by (simp add: renamed_def namedBefore_def namedAfter_def run_simps)

lemma inherited_key_no_call:
  "updateDomCalls (el_props namedBefore) (el_props namedAfter) = []"
  by (simp add: namedBefore_def namedAfter_def createElement_def updateDomCalls_def keys_def
      has_def get_def isEvent_def isProperty_def isNew_def isGone_def inheritedKeys_def)

theorem inherited_key_is_not_reset:
  "keys (el_props namedBefore) = [''toString'', ''children'']
   \<and> keys (el_props namedAfter) = [''children'']
   \<and> observe (\<lambda>w. (dom (fibers w 3), props (fibers w 3), attrs (nodes w 1) ''toString'')) renamed
       = Some (Inr (Some 1, [(''children'', Elems [])], Some (Str ''a'')))"
proof -
  from renamed_run obtain w where w: "renamed = Some (Inr w)"
    "attrs (nodes w 1) ''toString'' = Some (Str ''a'')" "dom (fibers w 3) = Some 1"
    "props (fibers w 3) = [(''children'', Elems [])]"
    by (elim exE conjE)
  have "keys (el_props namedBefore) = [''toString'', ''children'']"
    "keys (el_props namedAfter) = [''children'']"
    by (simp_all add: namedBefore_def namedAfter_def createElement_def keys_def)
  then show ?thesis using w(2-) by (simp add: observe_def w(1))
qed

subsection \<open>The update capability\<close>

text \<open>
  Claim C10. When nothing has been committed (\<^verbatim>\<open>currentRoot\<close> is \<^verbatim>\<open>null\<close>) a call of the
  update capability faults, on its read of \<^verbatim>\<open>currentRoot.dom\<close>; a call succeeds exactly
  when a generation has been committed.
\<close>

theorem setState_without_commit_faults:
  "(currentRoot w = None \<longrightarrow> setState h action w = Inl TypeError)
   \<and> ((\<exists>w'. setState h action w = Inr w') \<longleftrightarrow> currentRoot w \<noteq> None)"
  by (auto simp: setState_def Let_def split: option.splits)

theorem setState_without_commit_faults_witness:
  "setState 0 (\<lambda>c. c + 1) (initialWorld (1::int)) = Inl TypeError"
  using setState_without_commit_faults [of "initialWorld (1::int)" 0 "\<lambda>c. c + 1"]
  by (simp add: initialWorld_def)

text \<open>
  Claim C9. A call of the update capability of a hook, once a generation is committed,
  appends the function to the queue of that hook record, creates a new root fiber whose
  \<^verbatim>\<open>dom\<close> and \<^verbatim>\<open>props\<close> are those of \<^verbatim>\<open>currentRoot\<close> and whose \<^verbatim>\<open>alternate\<close> is
  \<^verbatim>\<open>currentRoot\<close>, makes it \<^verbatim>\<open>wipRoot\<close> and \<^verbatim>\<open>nextUnitOfWork\<close>, and resets the pending
  deletions to the empty collection. Nothing is batched: \<^verbatim>\<open>currentRoot\<close> stays, so the
  next call does the same with one more new root.
\<close>

theorem setState_schedules_generation:
  assumes "currentRoot w = Some cr"
  shows "\<exists>w'. setState h action w = Inr w'
     \<and> queue (hookStore w' h) = queue (hookStore w h) @ [action]
     \<and> state (hookStore w' h) = state (hookStore w h)
     \<and> (\<forall>h'. h' \<noteq> h \<longrightarrow> hookStore w' h' = hookStore w h')
     \<and> wipRoot w' = Some (fiberCount w)
     \<and> nextUnitOfWork w' = Some (fiberCount w)
     \<and> deletions w' = Some []
     \<and> dom (fibers w' (fiberCount w)) = dom (fibers w cr)
     \<and> props (fibers w' (fiberCount w)) = props (fibers w cr)
     \<and> alternate (fibers w' (fiberCount w)) = Some cr
     \<and> child (fibers w' (fiberCount w)) = None
     \<and> (\<forall>r. r \<noteq> fiberCount w \<longrightarrow> fibers w' r = fibers w r)
     \<and> fiberCount w' = fiberCount w + 1
     \<and> currentRoot w' = Some cr"
  using assms by (simp add: setState_def Let_def)

subsection \<open>The scenarios, evaluated\<close>

lemma mounted_run:
  "\<exists>w. mounted = Some (Inr w) \<and> currentRoot w = Some 0 \<and> wipRoot w = None
     \<and> nextUnitOfWork w = None \<and> deletions w = Some [] \<and> fiberCount w = 5
     \<and> hookCount w = 1 \<and> childNodes (nodes w 0) = [1] \<and> childNodes (nodes w 1) = [2, 3]
     \<and> attrs (nodes w 3) ''nodeValue'' = Some (Num 1)
     \<and> listeners (nodes w 1) = [(''click'', Fun 0)]
     \<and> state (hookStore w 0) = 1 \<and> queue (hookStore w 0) = []
     \<and> hooks (fibers w 1) = Some [0] \<and> dom (fibers w 0) = Some 0"
  by (simp add: mounted_def run_simps)

lemma counterAtWork_run:
  "\<exists>w. counterAtWork = Some (Inr w) \<and> wipFiber w = Some 8 \<and> hooks (fibers w 8) = Some []
     \<and> hookIndex w = Some 0 \<and> alternate (fibers w 8) = Some 1
     \<and> hooks (fibers w 1) = Some [0] \<and> hookCount w = 1
     \<and> hookStore w 0 = \<lparr>state = 1, queue = [\<lambda>c. c + 1, \<lambda>c. c * 2, \<lambda>c. c + 3]\<rparr>"
  by (simp add: counterAtWork_def clicked_def mounted_def run_simps)

lemma counterReached_run:
  "\<exists>w w'. counterReached = Some (Inr w) \<and> nextUnitOfWork w = Some 8
     \<and> alternate (fibers w 8) = Some 1 \<and> type (fibers w 8) = Some (Fn 0)
     \<and> updateFunctionComponent components 8 w = Some (Inr w')
     \<and> hooks (fibers w' 8) = Some [1]"
  by (simp add: counterReached_def clicked_def mounted_def run_simps)

lemma rerendered_run:
  "\<exists>w. rerendered = Some (Inr w) \<and> currentRoot w = Some 7 \<and> wipRoot w = None
     \<and> childNodes (nodes w 0) = [1] \<and> childNodes (nodes w 1) = [2, 3]
     \<and> attrs (nodes w 3) ''nodeValue'' = Some (Num 7)
     \<and> listeners (nodes w 1) = [(''click'', Fun 1)]
     \<and> state (hookStore w 1) = 7 \<and> queue (hookStore w 1) = []"
  by (simp add: rerendered_def clicked_def mounted_def run_simps)

lemma headed_run:
  "\<exists>w. headed = Some (Inr w) \<and> currentRoot w = Some 0 \<and> childNodes (nodes w 0) = [1]
     \<and> effectTag (fibers w 1) = Some PLACEMENT \<and> type (fibers w 1) = Some (Fn 1)
     \<and> parent (fibers w 1) = Some 0 \<and> fiberCount w = 4"
  by (simp add: headed_def run_simps)

lemma replacedWalk_run:
  "\<exists>w. replacedWalk = Some (Inr w) \<and> currentRoot w = Some 0 \<and> wipRoot w = Some 4
     \<and> nextUnitOfWork w = None \<and> deletions w = Some [1]
     \<and> effectTag (fibers w 1) = Some DELETION \<and> childNodes (nodes w 0) = [1]"
  by (simp add: replacedWalk_def headed_def run_simps)

lemma replaced_run:
  "\<exists>w. replaced = Some (Inr w) \<and> currentRoot w = Some 4 \<and> wipRoot w = None
     \<and> deletions w = Some [1] \<and> childNodes (nodes w 0) = [1, 3]
     \<and> effectTag (fibers w 1) = Some DELETION \<and> type (fibers w 1) = Some (Fn 1)
     \<and> dom (fibers w 1) = None \<and> child (fibers w 1) = Some 2
     \<and> dom (fibers w 2) = Some 1 \<and> parentNode (nodes w 1) = Some 0"
  by (simp add: replaced_def replacedWalk_def headed_def run_simps)

theorem setState_schedules_generation_witness:
  "map_sum id
     (\<lambda>w. (wipRoot w, nextUnitOfWork w, deletions w, alternate (fibers w 5),
           dom (fibers w 5), length (queue (hookStore w 0)), currentRoot w))
     (setState 0 (\<lambda>c. c + 1) (ending mounted))
   = Inr (Some 5, Some 5, Some [], Some 0, Some 0, 1, Some 0)"
proof -
  from mounted_run obtain w where w: "mounted = Some (Inr w)" "currentRoot w = Some 0"
    "fiberCount w = 5" "queue (hookStore w 0) = []" "dom (fibers w 0) = Some 0"
    by (elim exE conjE)
  have e: "ending mounted = w" by (simp add: ending_def w(1))
  from setState_schedules_generation[OF w(2), of 0 "\<lambda>c. c + 1"] w(3-)
  show ?thesis unfolding e by auto
qed

subsection \<open>Hook replay\<close>

lemma useState_slot:
  assumes "wipFiber w = Some wip" and "hooks (fibers w wip) = Some hs"
    and "hookIndex w = Some k"
  shows "useState initial w =
     (let s = (case alternate (fibers w wip) of
                 None \<Rightarrow> initial
               | Some a \<Rightarrow>
                   (case hooks (fibers w a) of
                      None \<Rightarrow> initial
                    | Some ohs \<Rightarrow>
                        if k < length ohs then replay (hookStore w (ohs ! k)) else initial))
      in Inr ((s, hookCount w),
           w\<lparr>hookStore := (hookStore w)(hookCount w := \<lparr>state = s, queue = []\<rparr>),
             hookCount := hookCount w + 1,
             fibers := (fibers w)(wip := (fibers w wip)\<lparr>hooks := Some (hs @ [hookCount w])\<rparr>),
             hookIndex := Some (k + 1)\<rparr>))"
  using assms
  by (simp add: useState_def oldHookOf_def replay_def Let_def split: option.splits)

lemma runComponent_frame:
  assumes "wipFiber w = Some f" and "hooks (fibers w f) = Some hs" and "hookIndex w = Some k"
  shows "\<exists>el w' news. runComponent c w = Inr (el, w')
     \<and> hooks (fibers w' f) = Some (hs @ news)
     \<and> hookIndex w' = Some (k + length news)
     \<and> news = [hookCount w..<hookCount w']
     \<and> hookCount w' = hookCount w + length news
     \<and> (\<forall>h < hookCount w. hookStore w' h = hookStore w h)
     \<and> (\<forall>r. r \<noteq> f \<longrightarrow> fibers w' r = fibers w r)
     \<and> fibers w' f = (fibers w f)\<lparr>hooks := Some (hs @ news)\<rparr>
     \<and> w' = w\<lparr>hookStore := hookStore w', hookCount := hookCount w',
              fibers := fibers w', hookIndex := hookIndex w'\<rparr>"
  using assms
proof (induction c arbitrary: w hs k)
  case (Return e)
  then show ?case by (intro exI[of _ e] exI[of _ w] exI[of _ "[]"]) simp
next
  case (UseState initial cont)
  let ?s = "(case alternate (fibers w f) of
                 None \<Rightarrow> initial
               | Some a \<Rightarrow>
                   (case hooks (fibers w a) of
                      None \<Rightarrow> initial
                    | Some ohs \<Rightarrow>
                        if k < length ohs then replay (hookStore w (ohs ! k)) else initial))"
  let ?w1 = "w\<lparr>hookStore := (hookStore w)(hookCount w := \<lparr>state = ?s, queue = []\<rparr>),
             hookCount := hookCount w + 1,
             fibers := (fibers w)(f := (fibers w f)\<lparr>hooks := Some (hs @ [hookCount w])\<rparr>),
             hookIndex := Some (k + 1)\<rparr>"
  have u: "useState initial w = Inr ((?s, hookCount w), ?w1)"
    using useState_slot[OF UseState.prems, of initial] by (simp add: Let_def)
  have a: "wipFiber ?w1 = Some f" "hooks (fibers ?w1 f) = Some (hs @ [hookCount w])"
    "hookIndex ?w1 = Some (k + 1)"
    using UseState.prems by simp_all
  from UseState.IH[OF rangeI[of cont ?s] rangeI[of "cont ?s" "hookCount w"] a]
  obtain el w' news where r: "runComponent (cont ?s (hookCount w)) ?w1 = Inr (el, w')"
    and h: "hooks (fibers w' f) = Some ((hs @ [hookCount w]) @ news)"
    and i: "hookIndex w' = Some (k + 1 + length news)"
    and n: "news = [hookCount ?w1..<hookCount w']"
    and c: "hookCount w' = hookCount ?w1 + length news"
    and s: "\<forall>h < hookCount ?w1. hookStore w' h = hookStore ?w1 h"
    and o: "\<forall>r. r \<noteq> f \<longrightarrow> fibers w' r = fibers ?w1 r"
    and ff: "fibers w' f = (fibers ?w1 f)\<lparr>hooks := Some ((hs @ [hookCount w]) @ news)\<rparr>"
    and e: "w' = ?w1\<lparr>hookStore := hookStore w', hookCount := hookCount w',
              fibers := fibers w', hookIndex := hookIndex w'\<rparr>"
    by (elim exE conjE)
  show ?case
  proof (intro exI[of _ el] exI[of _ w'] exI[of _ "hookCount w # news"] conjI)
    show "runComponent (UseState initial cont) w = Inr (el, w')" using u r by simp
    show "hooks (fibers w' f) = Some (hs @ hookCount w # news)" using h by simp
    show "hookIndex w' = Some (k + length (hookCount w # news))" using i by simp
    show "hookCount w # news = [hookCount w..<hookCount w']"
    proof -
      have lt: "hookCount w < hookCount w'" using c by simp
      have "news = [Suc (hookCount w)..<hookCount w']" using n by simp
      then show ?thesis by (subst upt_conv_Cons[OF lt]) simp
    qed
    show "hookCount w' = hookCount w + length (hookCount w # news)" using c by simp
    show "\<forall>h<hookCount w. hookStore w' h = hookStore w h" using s by simp
    show "\<forall>r. r \<noteq> f \<longrightarrow> fibers w' r = fibers w r" using o by simp
    show "fibers w' f = (fibers w f)\<lparr>hooks := Some (hs @ hookCount w # news)\<rparr>"
      using ff by simp
    show "w' = w\<lparr>hookStore := hookStore w', hookCount := hookCount w',
              fibers := fibers w', hookIndex := hookIndex w'\<rparr>"
      by (subst e) simp
  qed
qed

lemma runComponent_slots:
  assumes wf: "wipFiber w = Some f" and hs: "hooks (fibers w f) = Some hs"
    and hi: "hookIndex w = Some (length hs)"
    and alt: "alternate (fibers w f) = Some a" and ne: "a \<noteq> f"
    and oh: "hooks (fibers w a) = Some ohs"
  shows "\<exists>el w' news. runComponent c w = Inr (el, w')
     \<and> hooks (fibers w' f) = Some (hs @ news)
     \<and> (\<forall>j < length news.
           length hs + j < length ohs \<and> ohs ! (length hs + j) < hookCount w \<longrightarrow>
           state (hookStore w' (news ! j)) = replay (hookStore w (ohs ! (length hs + j))))"
  using assms
proof (induction c arbitrary: w hs)
  case (Return e)
  then show ?case by (intro exI[of _ e] exI[of _ w] exI[of _ "[]"]) simp
next
  case (UseState initial cont)
  let ?k = "length hs"
  let ?s = "if ?k < length ohs then replay (hookStore w (ohs ! ?k)) else initial"
  let ?w1 = "w\<lparr>hookStore := (hookStore w)(hookCount w := \<lparr>state = ?s, queue = []\<rparr>),
             hookCount := hookCount w + 1,
             fibers := (fibers w)(f := (fibers w f)\<lparr>hooks := Some (hs @ [hookCount w])\<rparr>),
             hookIndex := Some (?k + 1)\<rparr>"
  have u: "useState initial w = Inr ((?s, hookCount w), ?w1)"
    using useState_slot[OF UseState.prems(1,2,3), of initial] UseState.prems(4,6)
    by (simp add: Let_def)
  have a: "wipFiber ?w1 = Some f" "hooks (fibers ?w1 f) = Some (hs @ [hookCount w])"
    "hookIndex ?w1 = Some (length (hs @ [hookCount w]))"
    "alternate (fibers ?w1 f) = Some a" "a \<noteq> f" "hooks (fibers ?w1 a) = Some ohs"
    using UseState.prems by simp_all
  from UseState.IH[OF rangeI[of cont ?s] rangeI[of "cont ?s" "hookCount w"] a]
  obtain el w' news where r: "runComponent (cont ?s (hookCount w)) ?w1 = Inr (el, w')"
    and h: "hooks (fibers w' f) = Some ((hs @ [hookCount w]) @ news)"
    and sl: "\<forall>j < length news.
           length (hs @ [hookCount w]) + j < length ohs
           \<and> ohs ! (length (hs @ [hookCount w]) + j) < hookCount ?w1 \<longrightarrow>
           state (hookStore w' (news ! j))
             = replay (hookStore ?w1 (ohs ! (length (hs @ [hookCount w]) + j)))"
    by (elim exE conjE)
  from runComponent_frame[OF a(1,2,3), of "cont ?s (hookCount w)"] r
  have fr: "\<forall>h < hookCount ?w1. hookStore w' h = hookStore ?w1 h"
    by auto
  have first: "state (hookStore w' (hookCount w)) = ?s"
    using fr by simp
  show ?case
  proof (intro exI[of _ el] exI[of _ w'] exI[of _ "hookCount w # news"] conjI allI impI)
    show "runComponent (UseState initial cont) w = Inr (el, w')" using u r by simp
    show "hooks (fibers w' f) = Some (hs @ hookCount w # news)" using h by simp
    fix j
    assume j: "j < length (hookCount w # news)"
      and o: "length hs + j < length ohs \<and> ohs ! (length hs + j) < hookCount w"
    show "state (hookStore w' ((hookCount w # news) ! j))
        = replay (hookStore w (ohs ! (length hs + j)))"
    proof (cases j)
      case 0
      then show ?thesis using first o by simp
    next
      case (Suc i)
      then have i: "i < length news" using j by simp
      have x: "ohs ! (length hs + j) \<noteq> hookCount w" using o by simp
      have "state (hookStore w' (news ! i))
             = replay (hookStore ?w1 (ohs ! (length (hs @ [hookCount w]) + i)))"
        using sl[rule_format, OF i] o Suc by simp
      then show ?thesis using Suc x by (simp add: replay_def)
    qed
  qed
qed

lemma within_mono: "within B n l \<Longrightarrow> n \<le> m \<Longrightarrow> within B m l"
  by (cases l) (auto simp: within_def)

lemma within_None: "within B n None"
  by (simp add: within_def)

lemma within_Some: "within B n (Some x) \<longleftrightarrow> B \<le> x \<and> x < n"
  by (simp add: within_def)

lemma linksWithin_alloc:
  assumes l: "linksWithin B w" and "B \<le> wip" and "wip < fiberCount w"
    and "parent fb = Some wip" and "child fb = None" and "sibling fb = None"
  shows "linksWithin B (w\<lparr>fibers := (fibers w)(fiberCount w := fb),
                          fiberCount := fiberCount w + 1\<rparr>)"
  unfolding linksWithin_def
proof (intro allI impI)
  fix r
  let ?w = "w\<lparr>fibers := (fibers w)(fiberCount w := fb), fiberCount := fiberCount w + 1\<rparr>"
  assume r: "B \<le> r \<and> r < fiberCount ?w"
  show "within B (fiberCount ?w) (parent (fibers ?w r))
      \<and> within B (fiberCount ?w) (child (fibers ?w r))
      \<and> within B (fiberCount ?w) (sibling (fibers ?w r))"
  proof (cases "r = fiberCount w")
    case True
    then show ?thesis using assms(2-) by (simp add: within_def)
  next
    case False
    then have "B \<le> r \<and> r < fiberCount w" using r by simp
    then have "within B (fiberCount w) (parent (fibers w r))
      \<and> within B (fiberCount w) (child (fibers w r))
      \<and> within B (fiberCount w) (sibling (fibers w r))"
      using l unfolding linksWithin_def by blast
    then show ?thesis using False by (auto intro: within_mono)
  qed
qed

lemma linksWithin_tag:
  assumes "linksWithin B w"
  shows "linksWithin B (w\<lparr>fibers := (fibers w)(old := (fibers w old)\<lparr>effectTag := t\<rparr>),
                          deletions := d\<rparr>)"
  using assms unfolding linksWithin_def by simp

lemma linksWithin_child:
  assumes "linksWithin B w" and "within B (fiberCount w) nf"
  shows "linksWithin B (w\<lparr>fibers := (fibers w)(x := (fibers w x)\<lparr>child := nf\<rparr>)\<rparr>)"
  using assms unfolding linksWithin_def by simp

lemma linksWithin_sibling:
  assumes "linksWithin B w" and "within B (fiberCount w) nf"
  shows "linksWithin B (w\<lparr>fibers := (fibers w)(x := (fibers w x)\<lparr>sibling := nf\<rparr>)\<rparr>)"
  using assms unfolding linksWithin_def by simp

lemma keepsHooks_refl: "keepsHooks w w"
  by (simp add: keepsHooks_def)

lemma keepsHooks_trans: "keepsHooks w w1 \<Longrightarrow> keepsHooks w1 w2 \<Longrightarrow> keepsHooks w w2"
  by (auto simp: keepsHooks_def)

lemma reconcileStep_shape:
  assumes "reconcileStep wip els i old prev w = Inr (old', new', w')"
  shows "\<exists>w1 w2.
     ((new' = None \<and> w1 = w)
      \<or> (\<exists>fb. new' = Some (fiberCount w) \<and> parent fb = Some wip \<and> child fb = None
            \<and> sibling fb = None
            \<and> w1 = w\<lparr>fibers := (fibers w)(fiberCount w := fb),
                      fiberCount := fiberCount w + 1\<rparr>))
     \<and> (w2 = w1
        \<or> (\<exists>x ds. w2 = w1\<lparr>fibers := (fibers w1)
                               (x := (fibers w1 x)\<lparr>effectTag := Some DELETION\<rparr>),
                             deletions := Some ds\<rparr>))
     \<and> (w' = w2
        \<or> w' = w2\<lparr>fibers := (fibers w2)(wip := (fibers w2 wip)\<lparr>child := new'\<rparr>)\<rparr>
        \<or> (\<exists>p. prev = Some p
              \<and> w' = w2\<lparr>fibers := (fibers w2)(p := (fibers w2 p)\<lparr>sibling := new'\<rparr>)\<rparr>))"
proof -
  let ?element = "elementAt els i"
  let ?sameType = "(case old of
                        None \<Rightarrow> False
                      | Some od \<Rightarrow>
                          (case ?element of
                             None \<Rightarrow> False
                           | Some el \<Rightarrow> Some (el_type el) = type (fibers w od)))"
  let ?r = "fiberCount w"
  let ?created = "(case ?element of
               None \<Rightarrow> None
             | Some el \<Rightarrow>
                 Some (case (if ?sameType then old else None) of
                         Some od \<Rightarrow>
                           \<lparr>type = type (fibers w od), props = el_props el,
                            dom = dom (fibers w od), parent = Some wip,
                            child = None, sibling = None, alternate = Some od,
                            effectTag = Some UPDATE, hooks = None\<rparr>
                       | None \<Rightarrow>
                           \<lparr>type = Some (el_type el), props = el_props el,
                            dom = None, parent = Some wip,
                            child = None, sibling = None, alternate = None,
                            effectTag = Some PLACEMENT, hooks = None\<rparr>))"
  let ?newFiber = "(case ?created of None \<Rightarrow> None | Some fb \<Rightarrow> Some ?r)"
  let ?w1 = "(case ?created of
                  None \<Rightarrow> w
                | Some fb \<Rightarrow> w\<lparr>fibers := (fibers w)(?r := fb), fiberCount := ?r + 1\<rparr>)"
  let ?m = "(case old of
                 None \<Rightarrow> Inr ?w1
               | Some od \<Rightarrow>
                   if ?sameType then Inr ?w1
                   else (case deletions ?w1 of
                           None \<Rightarrow> Inl TypeError
                         | Some ds \<Rightarrow>
                             Inr (?w1\<lparr>fibers := (fibers ?w1)
                                       (od := (fibers ?w1 od)\<lparr>effectTag := Some DELETION\<rparr>),
                                     deletions := Some (ds @ [od])\<rparr>)))"
  have c: "parent fb = Some wip \<and> child fb = None \<and> sibling fb = None"
    if "?created = Some fb" for fb
    using that by (auto split: option.splits if_splits)
  have a1: "(?newFiber = None \<and> ?w1 = w)
      \<or> (\<exists>fb. ?newFiber = Some (fiberCount w) \<and> parent fb = Some wip \<and> child fb = None
            \<and> sibling fb = None
            \<and> ?w1 = w\<lparr>fibers := (fibers w)(fiberCount w := fb),
                      fiberCount := fiberCount w + 1\<rparr>)"
  proof (cases ?created)
    case None
    then show ?thesis by simp
  next
    case (Some fb)
    then show ?thesis using c[OF Some] by (intro disjI2 exI[of _ fb]) simp
  qed
  from assms obtain w2 where m: "?m = Inr w2"
    and r: "(if i = 0 then
                   Inr (case old of None \<Rightarrow> None | Some od \<Rightarrow> sibling (fibers w2 od), ?newFiber,
                        w2\<lparr>fibers := (fibers w2)(wip := (fibers w2 wip)\<lparr>child := ?newFiber\<rparr>)\<rparr>)
                 else if ?element \<noteq> None then
                   (case prev of
                      None \<Rightarrow> Inl TypeError
                    | Some p \<Rightarrow>
                        Inr (case old of None \<Rightarrow> None | Some od \<Rightarrow> sibling (fibers w2 od),
                             ?newFiber,
                             w2\<lparr>fibers := (fibers w2)
                                  (p := (fibers w2 p)\<lparr>sibling := ?newFiber\<rparr>)\<rparr>))
                 else Inr (case old of None \<Rightarrow> None | Some od \<Rightarrow> sibling (fibers w2 od),
                           ?newFiber, w2)) = Inr (old', new', w')"
    unfolding reconcileStep_def Let_def by (cases ?m) simp_all
  have a2: "w2 = ?w1
        \<or> (\<exists>x ds. w2 = ?w1\<lparr>fibers := (fibers ?w1)
                               (x := (fibers ?w1 x)\<lparr>effectTag := Some DELETION\<rparr>),
                             deletions := Some ds\<rparr>)"
    using m by (cases old; cases "deletions ?w1") (auto split: if_splits)
  have n: "new' = ?newFiber" using r by (auto split: if_splits option.splits)
  have a3: "w' = w2
        \<or> w' = w2\<lparr>fibers := (fibers w2)(wip := (fibers w2 wip)\<lparr>child := new'\<rparr>)\<rparr>
        \<or> (\<exists>p. prev = Some p
              \<and> w' = w2\<lparr>fibers := (fibers w2)(p := (fibers w2 p)\<lparr>sibling := new'\<rparr>)\<rparr>)"
    unfolding n using r by (auto split: if_splits option.splits)
  show ?thesis
    using a1 a2 a3 unfolding n by blast
qed

lemma reconcileStep_keeps:
  assumes "reconcileStep wip els i old prev w = Inr (old', new', w')"
  shows "keepsHooks w w'"
proof -
  from reconcileStep_shape[OF assms] obtain w1 w2 where
    a1: "(new' = None \<and> w1 = w)
      \<or> (\<exists>fb. new' = Some (fiberCount w) \<and> parent fb = Some wip \<and> child fb = None
            \<and> sibling fb = None
            \<and> w1 = w\<lparr>fibers := (fibers w)(fiberCount w := fb),
                      fiberCount := fiberCount w + 1\<rparr>)"
    and a2: "w2 = w1
        \<or> (\<exists>x ds. w2 = w1\<lparr>fibers := (fibers w1)
                               (x := (fibers w1 x)\<lparr>effectTag := Some DELETION\<rparr>),
                             deletions := Some ds\<rparr>)"
    and a3: "w' = w2
        \<or> w' = w2\<lparr>fibers := (fibers w2)(wip := (fibers w2 wip)\<lparr>child := new'\<rparr>)\<rparr>
        \<or> (\<exists>p. prev = Some p
              \<and> w' = w2\<lparr>fibers := (fibers w2)(p := (fibers w2 p)\<lparr>sibling := new'\<rparr>)\<rparr>)"
    by (elim exE conjE)
  have k1: "keepsHooks w w1" using a1 by (auto simp: keepsHooks_def)
  have k2: "keepsHooks w1 w2" using a2 by (auto simp: keepsHooks_def)
  have k3: "keepsHooks w2 w'" using a3 by (auto simp: keepsHooks_def)
  show ?thesis using k1 k2 k3 keepsHooks_trans by blast
qed

lemma reconcileStep_links:
  assumes s: "reconcileStep wip els i old prev w = Inr (old', new', w')"
    and l: "linksWithin B w" and b: "B \<le> wip" "wip < fiberCount w"
    and p: "within B (fiberCount w) prev"
  shows "linksWithin B w' \<and> within B (fiberCount w') new' \<and> fiberCount w \<le> fiberCount w'"
proof -
  from reconcileStep_shape[OF s] obtain w1 w2 where
    a1: "(new' = None \<and> w1 = w)
      \<or> (\<exists>fb. new' = Some (fiberCount w) \<and> parent fb = Some wip \<and> child fb = None
            \<and> sibling fb = None
            \<and> w1 = w\<lparr>fibers := (fibers w)(fiberCount w := fb),
                      fiberCount := fiberCount w + 1\<rparr>)"
    and a2: "w2 = w1
        \<or> (\<exists>x ds. w2 = w1\<lparr>fibers := (fibers w1)
                               (x := (fibers w1 x)\<lparr>effectTag := Some DELETION\<rparr>),
                             deletions := Some ds\<rparr>)"
    and a3: "w' = w2
        \<or> w' = w2\<lparr>fibers := (fibers w2)(wip := (fibers w2 wip)\<lparr>child := new'\<rparr>)\<rparr>
        \<or> (\<exists>p. prev = Some p
              \<and> w' = w2\<lparr>fibers := (fibers w2)(p := (fibers w2 p)\<lparr>sibling := new'\<rparr>)\<rparr>)"
    by (elim exE conjE)
  have l1: "linksWithin B w1 \<and> within B (fiberCount w1) new' \<and> fiberCount w \<le> fiberCount w1"
    using a1
  proof
    assume "new' = None \<and> w1 = w"
    then show ?thesis using l by (simp add: within_None)
  next
    assume "\<exists>fb. new' = Some (fiberCount w) \<and> parent fb = Some wip \<and> child fb = None
            \<and> sibling fb = None
            \<and> w1 = w\<lparr>fibers := (fibers w)(fiberCount w := fb),
                      fiberCount := fiberCount w + 1\<rparr>"
    then obtain fb where fb: "new' = Some (fiberCount w)" "parent fb = Some wip"
      "child fb = None" "sibling fb = None"
      "w1 = w\<lparr>fibers := (fibers w)(fiberCount w := fb), fiberCount := fiberCount w + 1\<rparr>"
      by blast
    have "linksWithin B w1" unfolding fb(5) using l b fb(2-4) by (rule linksWithin_alloc)
    moreover have "within B (fiberCount w1) new'"
      using b by (simp add: fb(1,5) within_Some)
    ultimately show ?thesis by (simp add: fb(5))
  qed
  have l2: "linksWithin B w2 \<and> fiberCount w2 = fiberCount w1"
    using a2 l1 by (auto intro: linksWithin_tag)
  have wn: "within B (fiberCount w2) new'" using l1 l2 by simp
  have l3: "linksWithin B w' \<and> fiberCount w' = fiberCount w2"
    using a3 l2 wn by (auto intro: linksWithin_child linksWithin_sibling)
  show ?thesis using l1 l2 l3 by simp
qed

lemma reconcileLoop_keeps_aux:
  assumes "reconcileLoop wip els i old prev w = Some res"
  shows "\<forall>w'. res = Inr w' \<longrightarrow>
     keepsHooks w w'
     \<and> (linksWithin B w \<and> B \<le> wip \<and> wip < fiberCount w \<and> within B (fiberCount w) prev
          \<longrightarrow> linksWithin B w')"
proof (rule reconcileLoop.raw_induct
    [where P = "\<lambda>wip els i old prev w res. \<forall>w'. res = Inr w' \<longrightarrow>
       keepsHooks w w'
       \<and> (linksWithin B w \<and> B \<le> wip \<and> wip < fiberCount w \<and> within B (fiberCount w) prev
            \<longrightarrow> linksWithin B w')", OF _ assms], goal_cases)
  case (1 rl wip els i old prev w res)
  show ?case
  proof (intro allI impI)
    fix w' assume r: "res = Inr w'"
    show "keepsHooks w w'
       \<and> (linksWithin B w \<and> B \<le> wip \<and> wip < fiberCount w \<and> within B (fiberCount w) prev
            \<longrightarrow> linksWithin B w')"
    proof (cases "i < length els \<or> old \<noteq> None")
      case False
      with 1(2) r have "w' = w" by simp
      then show ?thesis by (simp add: keepsHooks_refl)
    next
      case True
      with 1(2) r obtain old' new' w1 where
        s: "reconcileStep wip els i old prev w = Inr (old', new', w1)"
        and n: "rl wip els (i + 1) old' new' w1 = Some (Inr w')"
        by (auto split: sum.splits)
      from 1(1)[OF n] have
        ih: "keepsHooks w1 w'
          \<and> (linksWithin B w1 \<and> B \<le> wip \<and> wip < fiberCount w1
               \<and> within B (fiberCount w1) new' \<longrightarrow> linksWithin B w')"
        by blast
      have k: "keepsHooks w w1" using s by (rule reconcileStep_keeps)
      have "linksWithin B w'"
        if "linksWithin B w \<and> B \<le> wip \<and> wip < fiberCount w \<and> within B (fiberCount w) prev"
      proof -
        from that have l: "linksWithin B w" and b: "B \<le> wip" "wip < fiberCount w"
          and p: "within B (fiberCount w) prev" by simp_all
        from reconcileStep_links[OF s l b p]
        have "linksWithin B w1 \<and> within B (fiberCount w1) new' \<and> fiberCount w \<le> fiberCount w1" .
        then show ?thesis using ih b by simp
      qed
      then show ?thesis using k ih keepsHooks_trans by blast
    qed
  qed
qed

lemma reconcileChildren_keeps:
  assumes "reconcileChildren wip els w = Some (Inr w')"
  shows "keepsHooks w w'"
    and "linksWithin B w \<Longrightarrow> B \<le> wip \<Longrightarrow> wip < fiberCount w \<Longrightarrow> linksWithin B w'"
  using reconcileLoop_keeps_aux[OF assms[unfolded reconcileChildren_def], of B]
  by (simp_all add: within_None)

lemma nextSibling_within_aux:
  assumes "nextSibling start w = Some res"
  shows "linksWithin B w \<and> within B (fiberCount w) start \<longrightarrow> within B (fiberCount w) res"
proof (rule nextSibling.raw_induct
    [where P = "\<lambda>start w res.
       linksWithin B w \<and> within B (fiberCount w) start \<longrightarrow> within B (fiberCount w) res",
     OF _ assms], goal_cases)
  case (1 ns start w res)
  show ?case
  proof (intro impI)
    assume a: "linksWithin B w \<and> within B (fiberCount w) start"
    show "within B (fiberCount w) res"
    proof (cases start)
      case None
      with 1(2) show ?thesis by (simp add: within_None)
    next
      case (Some f)
      then have f: "B \<le> f \<and> f < fiberCount w" using a by (simp add: within_Some)
      then have lf: "within B (fiberCount w) (parent (fibers w f))"
        "within B (fiberCount w) (sibling (fibers w f))"
        using a unfolding linksWithin_def by blast+
      show ?thesis
      proof (cases "sibling (fibers w f)")
        case None
        with 1(2) Some have "ns (parent (fibers w f)) w = Some res" by simp
        from 1(1)[OF this] a lf show ?thesis by simp
      next
        case (Some s)
        with 1(2) \<open>start = Some f\<close> have "res = Some s" by simp
        then show ?thesis using lf Some by simp
      qed
    qed
  qed
qed

lemma unitPrep_links: "unitPrep f w w' \<Longrightarrow> linksWithin B w \<Longrightarrow> linksWithin B w'"
  by (simp add: unitPrep_def linksWithin_def)

lemma updateDom_fibers:
  "fibers (updateDom d P N w) = fibers w" "fiberCount (updateDom d P N w) = fiberCount w"
  "hookStore (updateDom d P N w) = hookStore w" "hookCount (updateDom d P N w) = hookCount w"
  by (simp_all add: updateDom_def)

lemma unit_prep:
  assumes "(if isFunctionComponent (fibers w f) then updateFunctionComponent comps f w
            else updateHostComponent f w) = Some (Inr w')"
  shows "\<exists>w3 els. unitPrep f w w3 \<and> reconcileChildren f els w3 = Some (Inr w')"
proof (cases "isFunctionComponent (fibers w f)")
  case True
  let ?wS = "w\<lparr>wipFiber := Some f, hookIndex := Some 0,
                 fibers := (fibers w)(f := (fibers w f)\<lparr>hooks := Some []\<rparr>)\<rparr>"
  from True obtain c where c: "type (fibers w f) = Some (Fn c)"
    by (auto simp: isFunctionComponent_def split: option.splits etype.splits)
  have a: "wipFiber ?wS = Some f" "hooks (fibers ?wS f) = Some []" "hookIndex ?wS = Some 0"
    by simp_all
  from runComponent_frame[OF a, of "comps c (props (fibers ?wS f))"]
  obtain el w3 news where r: "runComponent (comps c (props (fibers ?wS f))) ?wS = Inr (el, w3)"
    and cnt: "hookCount w3 = hookCount ?wS + length news"
    and st: "\<forall>h < hookCount ?wS. hookStore w3 h = hookStore ?wS h"
    and o: "\<forall>r. r \<noteq> f \<longrightarrow> fibers w3 r = fibers ?wS r"
    and ff: "fibers w3 f = (fibers ?wS f)\<lparr>hooks := Some ([] @ news)\<rparr>"
    and e: "w3 = ?wS\<lparr>hookStore := hookStore w3, hookCount := hookCount w3,
              fibers := fibers w3, hookIndex := hookIndex w3\<rparr>"
    by (elim exE conjE)
  have rc: "reconcileChildren f [el] w3 = Some (Inr w')"
    using assms True c r by (simp add: updateFunctionComponent_def Let_def)
  have fc: "fiberCount w3 = fiberCount w" by (subst e) simp
  have links: "parent (fibers w3 r) = parent (fibers w r)
             \<and> child (fibers w3 r) = child (fibers w r)
             \<and> sibling (fibers w3 r) = sibling (fibers w r)" for r
    using o[rule_format, of r] ff by (cases "r = f") simp_all
  have hk: "hooks (fibers w3 r) = hooks (fibers w r)" if "r \<noteq> f" for r
    using o[rule_format, OF that] that by simp
  have "unitPrep f w w3"
    unfolding unitPrep_def using fc links hk st cnt by simp
  then show ?thesis using rc by blast
next
  case False
  from assms False obtain w2 els where
    p: "(case dom (fibers w f) of
              Some d \<Rightarrow> Inr w
            | None \<Rightarrow>
                (case createDom f w of
                   Inl e \<Rightarrow> Inl e
                 | Inr (d, w1) \<Rightarrow>
                     Inr (w1\<lparr>fibers := (fibers w1)(f := (fibers w1 f)\<lparr>dom := Some d\<rparr>)\<rparr>))) = Inr w2"
    and rc: "reconcileChildren f els w2 = Some (Inr w')"
    by (auto simp: updateHostComponent_def split: sum.splits option.splits)
  have "unitPrep f w w2"
  proof (cases "dom (fibers w f)")
    case (Some d)
    with p show ?thesis by (simp add: unitPrep_def)
  next
    case None
    with p obtain d w1 where cd: "createDom f w = Inr (d, w1)"
      and w2: "w2 = w1\<lparr>fibers := (fibers w1)(f := (fibers w1 f)\<lparr>dom := Some d\<rparr>)\<rparr>"
      by (auto split: sum.splits)
    from cd have "fibers w1 = fibers w \<and> fiberCount w1 = fiberCount w
        \<and> hookStore w1 = hookStore w \<and> hookCount w1 = hookCount w"
      by (auto simp: createDom_def Let_def updateDom_fibers split: sum.splits)
    then show ?thesis by (simp add: unitPrep_def w2)
  qed
  then show ?thesis using rc by blast
qed

lemma performUnitOfWork_inv:
  assumes run: "performUnitOfWork comps f w = Some (Inr (n, w1))"
    and l: "linksWithin B w" and f: "B \<le> f" "f < fiberCount w"
  shows "linksWithin B w1 \<and> within B (fiberCount w1) n \<and> walkFrame B w w1"
proof -
  from run obtain w' where
    u: "(if isFunctionComponent (fibers w f) then updateFunctionComponent comps f w
         else updateHostComponent f w) = Some (Inr w')"
    and nx: "(case child (fibers w' f) of
                Some c \<Rightarrow> Some (Inr (Some c, w'))
              | None \<Rightarrow> Option.bind (nextSibling (Some f) w') (\<lambda>n. Some (Inr (n, w'))))
             = (Some (Inr (n, w1)) :: (error + _) option)"
    unfolding performUnitOfWork_def bind_sum_Inr by (elim exE conjE)
  from unit_prep[OF u] obtain w3 els where p: "unitPrep f w w3"
    and rc: "reconcileChildren f els w3 = Some (Inr w')"
    by blast
  have l3: "linksWithin B w3" using p l by (rule unitPrep_links)
  have fc3: "fiberCount w3 = fiberCount w" using p by (simp add: unitPrep_def)
  have k: "keepsHooks w3 w'" using rc by (rule reconcileChildren_keeps)
  have l': "linksWithin B w'"
    using reconcileChildren_keeps(2)[OF rc l3 f(1)] f(2) fc3 by simp
  have fc': "fiberCount w \<le> fiberCount w'" using k fc3 by (simp add: keepsHooks_def)
  have w1: "w1 = w'" using nx by (auto split: option.splits simp: bind_eq_Some_conv)
  have fin: "B \<le> f \<and> f < fiberCount w'" using f fc' by simp
  have wn: "within B (fiberCount w') n"
  proof (cases "child (fibers w' f)")
    case (Some c)
    then have "n = Some c" using nx by simp
    moreover have "within B (fiberCount w') (child (fibers w' f))"
      using l' fin unfolding linksWithin_def by blast
    ultimately show ?thesis using Some by simp
  next
    case None
    then have "nextSibling (Some f) w' = Some n"
      using nx by (auto simp: bind_eq_Some_conv)
    from nextSibling_within_aux[OF this, of B] l' fin show ?thesis
      by (simp add: within_Some)
  qed
  have fr: "walkFrame B w w'"
    unfolding walkFrame_def
  proof (intro conjI allI impI)
    fix h assume "h < hookCount w"
    then show "hookStore w' h = hookStore w h"
      using p k by (simp add: unitPrep_def keepsHooks_def)
  next
    show "hookCount w \<le> hookCount w'" using p k by (simp add: unitPrep_def keepsHooks_def)
    show "fiberCount w \<le> fiberCount w'" by (rule fc')
  next
    fix r assume r: "r < B"
    then have "r \<noteq> f" "r < fiberCount w3" using f fc3 by simp_all
    then show "hooks (fibers w' r) = hooks (fibers w r)"
      using p k by (simp add: unitPrep_def keepsHooks_def)
  qed
  show ?thesis using l' wn fr by (simp add: w1)
qed

lemma walkFrame_refl: "walkFrame B w w"
  by (simp add: walkFrame_def)

lemma walkFrame_trans:
  assumes a: "walkFrame B w w1" and b: "walkFrame B w1 w2"
  shows "walkFrame B w w2"
  unfolding walkFrame_def
proof (intro conjI allI impI)
  fix h assume h: "h < hookCount w"
  then have "h < hookCount w1" using a by (simp add: walkFrame_def)
  then have "hookStore w2 h = hookStore w1 h" using b by (simp add: walkFrame_def)
  then show "hookStore w2 h = hookStore w h" using a h by (simp add: walkFrame_def)
next
  show "hookCount w \<le> hookCount w2" using a b by (simp add: walkFrame_def)
  show "fiberCount w \<le> fiberCount w2" using a b by (simp add: walkFrame_def)
next
  fix r assume "r < B"
  then show "hooks (fibers w2 r) = hooks (fibers w r)" using a b by (simp add: walkFrame_def)
qed

lemma walk_inv:
  "walk comps k w = Some (Inr w') \<Longrightarrow> walkInv B w \<Longrightarrow> walkInv B w' \<and> walkFrame B w w'"
proof (induction k arbitrary: w)
  case 0
  then show ?case by (simp add: walkFrame_refl)
next
  case (Suc k)
  show ?case
  proof (cases "nextUnitOfWork w")
    case None
    with Suc.prems show ?thesis by (simp add: walkFrame_refl)
  next
    case (Some f)
    with Suc.prems(1) obtain n w1 where
      p: "performUnitOfWork comps f w = Some (Inr (n, w1))"
      and r: "walk comps k (w1\<lparr>nextUnitOfWork := n\<rparr>) = Some (Inr w')"
      by (auto simp: bind_sum_Inr)
    from Suc.prems(2) Some have l: "linksWithin B w" and f: "B \<le> f" "f < fiberCount w"
      by (simp_all add: walkInv_def within_Some)
    from performUnitOfWork_inv[OF p l f]
    have a: "linksWithin B w1" "within B (fiberCount w1) n" "walkFrame B w w1" by simp_all
    have "walkInv B (w1\<lparr>nextUnitOfWork := n\<rparr>)"
      using a(1,2) by (simp add: walkInv_def linksWithin_def)
    from Suc.IH[OF r this] have b: "walkInv B w'" "walkFrame B (w1\<lparr>nextUnitOfWork := n\<rparr>) w'"
      by simp_all
    have "walkFrame B w1 w'" using b(2) by (simp add: walkFrame_def)
    then show ?thesis using a(3) b(1) walkFrame_trans by blast
  qed
qed

lemma workWhile_walk_aux:
  assumes "workWhile comps deadline k b w = Some res"
  shows "\<forall>w'. res = Inr w' \<longrightarrow> (\<exists>m. walk comps m w = Some (Inr w'))"
proof (rule workWhile.raw_induct
    [where P = "\<lambda>comps deadline k b w res.
       \<forall>w'. res = Inr w' \<longrightarrow> (\<exists>m. walk comps m w = Some (Inr w'))", OF _ assms], goal_cases)
  case (1 ww comps deadline k b w res)
  show ?case
  proof (intro allI impI)
    fix w' assume r: "res = Inr w'"
    show "\<exists>m. walk comps m w = Some (Inr w')"
    proof (cases "if b then None else nextUnitOfWork w")
      case None
      with 1(2) r have "w' = w" by simp
      then show ?thesis by (intro exI[of _ 0]) simp
    next
      case (Some f)
      then have nx: "nextUnitOfWork w = Some f" by (simp split: if_splits)
      from 1(2) r Some obtain n w1 where
        p: "performUnitOfWork comps f w = Some (Inr (n, w1))"
        and c: "ww comps deadline (k + 1) (deadline k < 1) (w1\<lparr>nextUnitOfWork := n\<rparr>)
                  = Some (Inr w')"
        by (auto simp: bind_sum_Inr)
      from 1(1)[OF c] obtain m where
        "walk comps m (w1\<lparr>nextUnitOfWork := n\<rparr>) = Some (Inr w')" by blast
      then have "walk comps (Suc m) w = Some (Inr w')" using nx p by simp
      then show ?thesis by blast
    qed
  qed
qed

lemma workWhile_walk:
  "workWhile comps deadline k b w = Some (Inr w') \<Longrightarrow> \<exists>m. walk comps m w = Some (Inr w')"
  using workWhile_walk_aux by blast

lemma linksWithin_root:
  assumes l: "linksWithin B w" and "B \<le> fiberCount w"
    and "parent fb = None" and "child fb = None" and "sibling fb = None"
  shows "linksWithin B (w\<lparr>fibers := (fibers w)(fiberCount w := fb),
                          fiberCount := fiberCount w + 1\<rparr>)"
  unfolding linksWithin_def
proof (intro allI impI)
  fix r
  let ?w = "w\<lparr>fibers := (fibers w)(fiberCount w := fb), fiberCount := fiberCount w + 1\<rparr>"
  assume r: "B \<le> r \<and> r < fiberCount ?w"
  show "within B (fiberCount ?w) (parent (fibers ?w r))
      \<and> within B (fiberCount ?w) (child (fibers ?w r))
      \<and> within B (fiberCount ?w) (sibling (fibers ?w r))"
  proof (cases "r = fiberCount w")
    case True
    then show ?thesis using assms(3-) by (simp add: within_def)
  next
    case False
    then have "B \<le> r \<and> r < fiberCount w" using r by simp
    then have "within B (fiberCount w) (parent (fibers w r))
      \<and> within B (fiberCount w) (child (fibers w r))
      \<and> within B (fiberCount w) (sibling (fibers w r))"
      using l unfolding linksWithin_def by blast
    then show ?thesis using False by (auto intro: within_mono)
  qed
qed

lemma setState_inv:
  assumes cr: "currentRoot w = Some cr" and l: "linksWithin B w" and b: "B \<le> fiberCount w"
  shows "\<exists>w1. setState h action w = Inr w1 \<and> linksWithin B w1 \<and> B \<le> fiberCount w1
     \<and> fiberCount w \<le> fiberCount w1
     \<and> walkInv B w1
     \<and> hookStore w1 h = (hookStore w h)\<lparr>queue := queue (hookStore w h) @ [action]\<rparr>
     \<and> (\<forall>h'. h' \<noteq> h \<longrightarrow> hookStore w1 h' = hookStore w h')
     \<and> hookCount w1 = hookCount w
     \<and> (\<forall>r < fiberCount w. fibers w1 r = fibers w r)
     \<and> currentRoot w1 = Some cr"
proof -
  let ?w1 = "w\<lparr>hookStore := (hookStore w)
                  (h := (hookStore w h)\<lparr>queue := queue (hookStore w h) @ [action]\<rparr>)\<rparr>"
  let ?root = "\<lparr>type = None, props = props (fibers ?w1 cr), dom = dom (fibers ?w1 cr),
                          parent = None, child = None, sibling = None,
                          alternate = Some cr, effectTag = None, hooks = None\<rparr>"
  let ?wa = "?w1\<lparr>fibers := (fibers ?w1)(fiberCount ?w1 := ?root),
                 fiberCount := fiberCount ?w1 + 1\<rparr>"
  let ?w' = "?w1\<lparr>fibers := (fibers ?w1)(fiberCount ?w1 := ?root),
                 fiberCount := fiberCount ?w1 + 1,
                 wipRoot := Some (fiberCount ?w1), nextUnitOfWork := Some (fiberCount ?w1),
                 deletions := Some []\<rparr>"
  have run: "setState h action w = Inr ?w'"
    using cr by (simp add: setState_def Let_def)
  have l1: "linksWithin B ?w1" using l by (simp add: linksWithin_def)
  have "linksWithin B ?wa"
    by (rule linksWithin_root[OF l1]) (use b in simp_all)
  then have l': "linksWithin B ?w'" by (simp add: linksWithin_def)
  have inv: "walkInv B ?w'" using l' b by (simp add: walkInv_def within_Some)
  show ?thesis
    apply (rule exI[of _ ?w'])
    apply (intro conjI)
            apply (rule run)
           apply (rule l')
    using b apply simp
         apply simp
        apply (rule inv)
       apply simp
      apply simp
     apply simp
    apply simp
    using cr apply simp
    done
qed

lemma invokeAll_inv:
  assumes "currentRoot w = Some cr" and "linksWithin B w" and "B \<le> fiberCount w"
  shows "\<exists>w1. invokeAll h actions w = Inr w1 \<and> linksWithin B w1
     \<and> fiberCount w \<le> fiberCount w1
     \<and> (actions \<noteq> [] \<longrightarrow> walkInv B w1)
     \<and> hookStore w1 h = (hookStore w h)\<lparr>queue := queue (hookStore w h) @ actions\<rparr>
     \<and> hookCount w1 = hookCount w
     \<and> (\<forall>r < fiberCount w. fibers w1 r = fibers w r)"
  using assms
proof (induction actions arbitrary: w)
  case Nil
  then show ?case by simp
next
  case (Cons a actions)
  from setState_inv[OF Cons.prems, of h a] obtain w1 where
    s: "setState h a w = Inr w1" and l1: "linksWithin B w1" and b1: "B \<le> fiberCount w1"
    and f1: "fiberCount w \<le> fiberCount w1" and i1: "walkInv B w1"
    and h1: "hookStore w1 h = (hookStore w h)\<lparr>queue := queue (hookStore w h) @ [a]\<rparr>"
    and c1: "hookCount w1 = hookCount w"
    and r1: "\<forall>r < fiberCount w. fibers w1 r = fibers w r"
    and cr1: "currentRoot w1 = Some cr"
    by (elim exE conjE)
  from Cons.IH[OF cr1 l1 b1] obtain w2 where
    s2: "invokeAll h actions w1 = Inr w2" and l2: "linksWithin B w2"
    and f2: "fiberCount w1 \<le> fiberCount w2"
    and i2: "actions \<noteq> [] \<longrightarrow> walkInv B w2"
    and h2: "hookStore w2 h = (hookStore w1 h)\<lparr>queue := queue (hookStore w1 h) @ actions\<rparr>"
    and c2: "hookCount w2 = hookCount w1"
    and r2: "\<forall>r < fiberCount w1. fibers w2 r = fibers w1 r"
    by (elim exE conjE)
  have inv: "walkInv B w2"
  proof (cases actions)
    case Nil
    then have "w2 = w1" using s2 by simp
    then show ?thesis using i1 by simp
  next
    case (Cons x xs)
    then show ?thesis using i2 by simp
  qed
  show ?case
  proof (intro exI[of _ w2] conjI allI impI)
    show "invokeAll h (a # actions) w = Inr w2" using s s2 by simp
    show "linksWithin B w2" by (rule l2)
    show "fiberCount w \<le> fiberCount w2" using f1 f2 by simp
    show "walkInv B w2" by (rule inv)
    show "hookStore w2 h = (hookStore w h)\<lparr>queue := queue (hookStore w h) @ a # actions\<rparr>"
      unfolding h2 h1 by simp
    show "hookCount w2 = hookCount w" using c1 c2 by simp
    fix r assume "r < fiberCount w"
    then show "fibers w2 r = fibers w r" using r1 r2 f1 by simp
  qed
qed

lemma hook_replay_after_calls:
  assumes cr: "currentRoot w0 = Some cr"
    and hs: "hooks (fibers w0 c) = Some ohs" and c: "c < fiberCount w0"
    and k: "k < length ohs" and h: "ohs ! k < hookCount w0"
    and ne: "actions \<noteq> []"
    and calls: "invokeAll (ohs ! k) actions w0 = Inr w1"
    and wk: "walk comps m w1 = Some (Inr w2)"
    and nx: "nextUnitOfWork w2 = Some f"
    and alt: "alternate (fibers w2 f) = Some c"
    and ty: "type (fibers w2 f) = Some (Fn g)"
  shows "\<exists>el w3 news.
     updateFunctionComponent comps f w2 = reconcileChildren f [el] w3
     \<and> hooks (fibers w3 f) = Some news
     \<and> (k < length news \<longrightarrow>
          state (hookStore w3 (news ! k))
            = fold (\<lambda>action s. action s) (queue (hookStore w0 (ohs ! k)) @ actions)
                (state (hookStore w0 (ohs ! k))))
     \<and> (\<forall>w4. reconcileChildren f [el] w3 = Some (Inr w4) \<longrightarrow>
           hooks (fibers w4 f) = Some news \<and> hookStore w4 = hookStore w3)"
proof -
  let ?B = "fiberCount w0"
  let ?h = "ohs ! k"
  have l0: "linksWithin ?B w0" by (auto simp: linksWithin_def)
  from invokeAll_inv[OF cr l0 order_refl, of ?h actions] calls ne
  have i1: "walkInv ?B w1"
    and h1: "hookStore w1 ?h = (hookStore w0 ?h)\<lparr>queue := queue (hookStore w0 ?h) @ actions\<rparr>"
    and c1: "hookCount w1 = hookCount w0"
    and r1: "\<forall>r < fiberCount w0. fibers w1 r = fibers w0 r"
    by auto
  from walk_inv[OF wk i1] have i2: "walkInv ?B w2" and fr: "walkFrame ?B w1 w2" by simp_all
  have f: "?B \<le> f" "f < fiberCount w2"
    using i2 nx by (simp_all add: walkInv_def within_Some)
  have cf: "c \<noteq> f" using c f by simp
  have hc2: "hooks (fibers w2 c) = Some ohs"
    using fr c r1 hs by (simp add: walkFrame_def)
  have hl: "?h < hookCount w1" using h c1 by simp
  have hs2: "hookStore w2 ?h = (hookStore w0 ?h)\<lparr>queue := queue (hookStore w0 ?h) @ actions\<rparr>"
    using fr hl h1 by (simp add: walkFrame_def)
  have hcnt: "?h < hookCount w2" using fr hl by (simp add: walkFrame_def)
  let ?wS = "w2\<lparr>wipFiber := Some f, hookIndex := Some 0,
                 fibers := (fibers w2)(f := (fibers w2 f)\<lparr>hooks := Some []\<rparr>)\<rparr>"
  have a: "wipFiber ?wS = Some f" "hooks (fibers ?wS f) = Some []"
    "hookIndex ?wS = Some (length ([]::href list))"
    "alternate (fibers ?wS f) = Some c" "c \<noteq> f" "hooks (fibers ?wS c) = Some ohs"
    using alt cf hc2 by simp_all
  let ?c = "comps g (props (fibers ?wS f))"
  from runComponent_slots[OF a, of ?c] obtain el w3 news where
    r: "runComponent ?c ?wS = Inr (el, w3)"
    and hn: "hooks (fibers w3 f) = Some ([] @ news)"
    and sl: "\<forall>j < length news.
           length ([]::href list) + j < length ohs
           \<and> ohs ! (length ([]::href list) + j) < hookCount ?wS \<longrightarrow>
           state (hookStore w3 (news ! j))
             = replay (hookStore ?wS (ohs ! (length ([]::href list) + j)))"
    by (elim exE conjE)
  have a0: "hookIndex ?wS = Some 0" by simp
  from runComponent_frame[OF a(1,2) a0, of ?c] r
  have e: "w3 = ?wS\<lparr>hookStore := hookStore w3, hookCount := hookCount w3,
              fibers := fibers w3, hookIndex := hookIndex w3\<rparr>"
    by auto
  have fc3: "fiberCount w3 = fiberCount w2" by (subst e) simp
  have upd: "updateFunctionComponent comps f w2 = reconcileChildren f [el] w3"
    using ty r by (simp add: updateFunctionComponent_def Let_def)
  have st: "state (hookStore w3 (news ! k))
            = fold (\<lambda>action s. action s) (queue (hookStore w0 ?h) @ actions)
                (state (hookStore w0 ?h))" if "k < length news"
  proof -
    have "state (hookStore w3 (news ! k)) = replay (hookStore ?wS ?h)"
      using sl[rule_format, OF that] k hcnt by simp
    also have "\<dots> = replay (hookStore w2 ?h)" by simp
    finally show ?thesis unfolding hs2 by (simp add: replay_def)
  qed
  have after: "hooks (fibers w4 f) = Some news \<and> hookStore w4 = hookStore w3"
    if "reconcileChildren f [el] w3 = Some (Inr w4)" for w4
  proof -
    from reconcileChildren_keeps(1)[OF that] have "keepsHooks w3 w4" .
    then show ?thesis using f(2) fc3 hn by (simp add: keepsHooks_def)
  qed
  show ?thesis
    apply (rule exI[of _ el], rule exI[of _ w3], rule exI[of _ news])
    apply (intro conjI allI impI)
    apply (rule upd)
    using hn apply simp
    apply (erule st)
    using after apply blast
    using after apply blast
    done
qed

lemma walk_add:
  "walk comps (m + m') w =
     Option.bind (walk comps m w)
       (\<lambda>r. case r of Inl e \<Rightarrow> Some (Inl e) | Inr w' \<Rightarrow> walk comps m' w')"
proof (induction m arbitrary: w)
  case 0
  then show ?case by simp
next
  case (Suc m)
  show ?case
  proof (cases "nextUnitOfWork w")
    case None
    then show ?thesis by (cases m') simp_all
  next
    case (Some f)
    show ?thesis
    proof (cases "performUnitOfWork comps f w")
      case None
      then show ?thesis using Some by simp
    next
      case (Some r)
      then show ?thesis
        using \<open>nextUnitOfWork w = Some f\<close> Suc.IH by (cases r) (auto split: prod.splits)
    qed
  qed
qed

text \<open>
  Claim C2. When \<^verbatim>\<open>useState\<close> runs for the fiber at work as its call number \<open>k\<close> (the
  value of \<^verbatim>\<open>hookIndex\<close>), the previous hook is entry \<open>k\<close> of the hooks of the fiber's
  \<^verbatim>\<open>alternate\<close>. When there is one, the state of the new hook is the state of the
  previous hook with every function of its queue applied in queue order; when there is
  none it is the initial value. The new hook is a new record with an empty queue, entry
  \<open>k\<close> of the hooks of the fiber at work, and \<^verbatim>\<open>hookIndex\<close> moves to the next slot.

  After calls of the update capability of a hook with the functions \<open>actions\<close>, in a
  world \<open>w0\<close> with a committed root, whatever number \<open>m\<close> of units the walk of the next
  generation has processed when it reaches a component fiber \<open>f\<close> whose \<^verbatim>\<open>alternate\<close> is
  the fiber \<open>c\<close> of that hook: the run of the component by \<^verbatim>\<open>updateFunctionComponent\<close>
  gives the hook in the same slot the state \<open>fN (.. (f1 s))\<close>, for the state \<open>s\<close> that the
  queue of the old hook gives at \<open>w0\<close>, and the reconciliation that follows keeps it.
  A slice of \<^verbatim>\<open>workLoop\<close> is such a walk, and so is a sequence of slices (\<open>walk_add\<close>).
\<close>

theorem useState_replays_queue:
  "(wipFiber w = Some wip \<and> hooks (fibers w wip) = Some hs \<and> hookIndex w = Some k \<longrightarrow>
      (\<exists>s w'. useState initial w = Inr ((s, hookCount w), w')
         \<and> (\<forall>a prev. alternate (fibers w wip) = Some a \<and> hooks (fibers w a) = Some prev
                \<and> k < length prev \<longrightarrow>
              s = fold (\<lambda>action s. action s) (queue (hookStore w (prev ! k)))
                    (state (hookStore w (prev ! k))))
         \<and> (alternate (fibers w wip) = None
              \<or> (\<exists>a. alternate (fibers w wip) = Some a
                    \<and> (hooks (fibers w a) = None
                         \<or> (\<exists>prev. hooks (fibers w a) = Some prev \<and> length prev \<le> k)))
              \<longrightarrow> s = initial)
         \<and> hookStore w' (hookCount w) = \<lparr>state = s, queue = []\<rparr>
         \<and> (\<forall>h. h \<noteq> hookCount w \<longrightarrow> hookStore w' h = hookStore w h)
         \<and> hooks (fibers w' wip) = Some (hs @ [hookCount w])
         \<and> hookIndex w' = Some (k + 1)))
   \<and> (currentRoot w0 = Some cr \<and> hooks (fibers w0 c) = Some ohs \<and> c < fiberCount w0
       \<and> j < length ohs \<and> ohs ! j < hookCount w0 \<and> actions \<noteq> [] \<longrightarrow>
      (\<exists>w1. invokeAll (ohs ! j) actions w0 = Inr w1
         \<and> (\<forall>m w2 f g.
               walk comps m w1 = Some (Inr w2) \<and> nextUnitOfWork w2 = Some f
               \<and> alternate (fibers w2 f) = Some c \<and> type (fibers w2 f) = Some (Fn g) \<longrightarrow>
               (\<exists>el w3 news.
                  updateFunctionComponent comps f w2 = reconcileChildren f [el] w3
                  \<and> hooks (fibers w3 f) = Some news
                  \<and> (j < length news \<longrightarrow>
                       state (hookStore w3 (news ! j))
                         = fold (\<lambda>action s. action s)
                             (queue (hookStore w0 (ohs ! j)) @ actions)
                             (state (hookStore w0 (ohs ! j))))
                  \<and> (\<forall>w4. reconcileChildren f [el] w3 = Some (Inr w4) \<longrightarrow>
                        hooks (fibers w4 f) = Some news \<and> hookStore w4 = hookStore w3)))))
   \<and> (\<forall>deadline i b wa wb.
         workWhile comps deadline i b wa = Some (Inr wb) \<longrightarrow>
         (\<exists>m. walk comps m wa = Some (Inr wb)))"
proof (intro conjI impI allI)
  assume a: "wipFiber w = Some wip \<and> hooks (fibers w wip) = Some hs \<and> hookIndex w = Some k"
  let ?s = "(case alternate (fibers w wip) of
                 None \<Rightarrow> initial
               | Some a \<Rightarrow>
                   (case hooks (fibers w a) of
                      None \<Rightarrow> initial
                    | Some ohs \<Rightarrow>
                        if k < length ohs then replay (hookStore w (ohs ! k)) else initial))"
  let ?w' = "w\<lparr>hookStore := (hookStore w)(hookCount w := \<lparr>state = ?s, queue = []\<rparr>),
             hookCount := hookCount w + 1,
             fibers := (fibers w)(wip := (fibers w wip)\<lparr>hooks := Some (hs @ [hookCount w])\<rparr>),
             hookIndex := Some (k + 1)\<rparr>"
  from a have u: "useState initial w = Inr ((?s, hookCount w), ?w')"
    using useState_slot[of w wip hs k initial] by (simp add: Let_def)
  show "\<exists>s w'. useState initial w = Inr ((s, hookCount w), w')
         \<and> (\<forall>a prev. alternate (fibers w wip) = Some a \<and> hooks (fibers w a) = Some prev
                \<and> k < length prev \<longrightarrow>
              s = fold (\<lambda>action s. action s) (queue (hookStore w (prev ! k)))
                    (state (hookStore w (prev ! k))))
         \<and> (alternate (fibers w wip) = None
              \<or> (\<exists>a. alternate (fibers w wip) = Some a
                    \<and> (hooks (fibers w a) = None
                         \<or> (\<exists>prev. hooks (fibers w a) = Some prev \<and> length prev \<le> k)))
              \<longrightarrow> s = initial)
         \<and> hookStore w' (hookCount w) = \<lparr>state = s, queue = []\<rparr>
         \<and> (\<forall>h. h \<noteq> hookCount w \<longrightarrow> hookStore w' h = hookStore w h)
         \<and> hooks (fibers w' wip) = Some (hs @ [hookCount w])
         \<and> hookIndex w' = Some (k + 1)"
  proof (intro exI[of _ ?s] exI[of _ ?w'] conjI allI impI)
    show "useState initial w = Inr ((?s, hookCount w), ?w')" by (rule u)
  next
    fix a prev
    assume "alternate (fibers w wip) = Some a \<and> hooks (fibers w a) = Some prev
        \<and> k < length prev"
    then show "?s = fold (\<lambda>action s. action s) (queue (hookStore w (prev ! k)))
                    (state (hookStore w (prev ! k)))"
      by (simp add: replay_def)
  next
    assume "alternate (fibers w wip) = None
              \<or> (\<exists>a. alternate (fibers w wip) = Some a
                    \<and> (hooks (fibers w a) = None
                         \<or> (\<exists>prev. hooks (fibers w a) = Some prev \<and> length prev \<le> k)))"
    then show "?s = initial" by auto
  qed simp_all
next
  assume b: "currentRoot w0 = Some cr \<and> hooks (fibers w0 c) = Some ohs \<and> c < fiberCount w0
       \<and> j < length ohs \<and> ohs ! j < hookCount w0 \<and> actions \<noteq> []"
  then have cr: "currentRoot w0 = Some cr" and hs: "hooks (fibers w0 c) = Some ohs"
    and c: "c < fiberCount w0" and j: "j < length ohs" and h: "ohs ! j < hookCount w0"
    and ne: "actions \<noteq> []"
    by simp_all
  have l0: "linksWithin (fiberCount w0) w0" by (auto simp: linksWithin_def)
  from invokeAll_inv[OF cr l0 order_refl, of "ohs ! j" actions]
  obtain w1 where calls: "invokeAll (ohs ! j) actions w0 = Inr w1" by blast
  show "\<exists>w1. invokeAll (ohs ! j) actions w0 = Inr w1
         \<and> (\<forall>m w2 f g.
               walk comps m w1 = Some (Inr w2) \<and> nextUnitOfWork w2 = Some f
               \<and> alternate (fibers w2 f) = Some c \<and> type (fibers w2 f) = Some (Fn g) \<longrightarrow>
               (\<exists>el w3 news.
                  updateFunctionComponent comps f w2 = reconcileChildren f [el] w3
                  \<and> hooks (fibers w3 f) = Some news
                  \<and> (j < length news \<longrightarrow>
                       state (hookStore w3 (news ! j))
                         = fold (\<lambda>action s. action s)
                             (queue (hookStore w0 (ohs ! j)) @ actions)
                             (state (hookStore w0 (ohs ! j))))
                  \<and> (\<forall>w4. reconcileChildren f [el] w3 = Some (Inr w4) \<longrightarrow>
                        hooks (fibers w4 f) = Some news \<and> hookStore w4 = hookStore w3)))"
  proof (intro exI[of _ w1] conjI allI impI)
    show "invokeAll (ohs ! j) actions w0 = Inr w1" by (rule calls)
  next
    fix m w2 f g
    assume "walk comps m w1 = Some (Inr w2) \<and> nextUnitOfWork w2 = Some f
               \<and> alternate (fibers w2 f) = Some c \<and> type (fibers w2 f) = Some (Fn g)"
    then have wk: "walk comps m w1 = Some (Inr w2)" and nx: "nextUnitOfWork w2 = Some f"
      and alt: "alternate (fibers w2 f) = Some c" and ty: "type (fibers w2 f) = Some (Fn g)"
      by simp_all
    show "\<exists>el w3 news.
                  updateFunctionComponent comps f w2 = reconcileChildren f [el] w3
                  \<and> hooks (fibers w3 f) = Some news
                  \<and> (j < length news \<longrightarrow>
                       state (hookStore w3 (news ! j))
                         = fold (\<lambda>action s. action s)
                             (queue (hookStore w0 (ohs ! j)) @ actions)
                             (state (hookStore w0 (ohs ! j))))
                  \<and> (\<forall>w4. reconcileChildren f [el] w3 = Some (Inr w4) \<longrightarrow>
                        hooks (fibers w4 f) = Some news \<and> hookStore w4 = hookStore w3)"
      using cr hs c j h ne calls wk nx alt ty by (rule hook_replay_after_calls)
  qed
next
  fix deadline i b wa wb
  assume "workWhile comps deadline i b wa = Some (Inr wb)"
  then show "\<exists>m. walk comps m wa = Some (Inr wb)" by (rule workWhile_walk)
qed

text \<open>
  On the program of the source. The first part at the call of \<^verbatim>\<open>useState\<close> in the second
  render of the counter, whose previous hook holds the state 1 and the three functions.
  The second part from the committed first page: the three calls, one unit of the walk,
  which reaches the fiber of the counter (address 8), and the run of the component.
\<close>

theorem useState_replays_queue_witness:
  "map_sum id fst (useState 1 (ending counterAtWork)) = Inr (7, 1)
   \<and> observe (\<lambda>w. (hooks (fibers w 8), state (hookStore w 1)))
       (andThen counterReached (updateFunctionComponent components 8))
     = Some (Inr (Some [1], 7))"
proof -
  let ?fs = "[\<lambda>c. c + 1, \<lambda>c. c * 2, \<lambda>c. c + (3::int)]"
  from mounted_run obtain w0 :: "int world" where m: "mounted = Some (Inr w0)"
    and w0: "currentRoot w0 = Some 0" "hooks (fibers w0 1) = Some [0]" "fiberCount w0 = 5"
      "hookCount w0 = 1" "state (hookStore w0 0) = 1" "queue (hookStore w0 0) = []"
    by (elim exE conjE)
  from counterAtWork_run obtain w where w: "counterAtWork = Some (Inr w)"
    and wf: "wipFiber w = Some 8" "hooks (fibers w 8) = Some []" "hookIndex w = Some 0"
    and wa: "alternate (fibers w 8) = Some 1" "hooks (fibers w 1) = Some [0]"
    and wh: "hookCount w = 1"
      "hookStore w 0 = \<lparr>state = 1, queue = [\<lambda>c. c + 1, \<lambda>c. c * 2, \<lambda>c. c + 3]\<rparr>"
    by (elim exE conjE)
  from counterReached_run obtain w2 w4 where r: "counterReached = Some (Inr w2)"
    and w2: "nextUnitOfWork w2 = Some 8" "alternate (fibers w2 8) = Some 1"
      "type (fibers w2 8) = Some (Fn 0)"
    and w4: "updateFunctionComponent components 8 w2 = Some (Inr w4)"
      "hooks (fibers w4 8) = Some [1]"
    by (elim exE conjE)
  note T = useState_replays_queue[of w 8 "[]" 0 1 w0 0 1 "[0]" 0 ?fs components]
  from T[THEN conjunct1] wf obtain s w' where
    u: "useState 1 w = Inr ((s, hookCount w), w')"
    and s: "\<forall>a prev. alternate (fibers w 8) = Some a \<and> hooks (fibers w a) = Some prev
                \<and> 0 < length prev \<longrightarrow>
              s = fold (\<lambda>action s. action s) (queue (hookStore w (prev ! 0)))
                    (state (hookStore w (prev ! 0)))"
    by auto
  have "s = fold (\<lambda>action s. action s) (queue (hookStore w ([0] ! 0)))
                    (state (hookStore w ([0] ! 0)))"
    using s[rule_format, of 1 "[0]"] wa by simp
  then have s7: "s = 7" using wh(2) by simp
  have first: "map_sum id fst (useState 1 (ending counterAtWork)) = Inr (7, 1)"
    using u s7 wh(1) by (simp add: ending_def w)
  have pre: "currentRoot w0 = Some 0 \<and> hooks (fibers w0 1) = Some [0] \<and> 1 < fiberCount w0
       \<and> 0 < length [0::nat] \<and> [0] ! 0 < hookCount w0 \<and> ?fs \<noteq> []"
    using w0 by simp
  from T[THEN conjunct2, THEN conjunct1, rule_format, OF pre]
  obtain w1 where calls: "invokeAll ([0] ! 0) ?fs w0 = Inr w1"
    and B: "\<forall>m w2 f g.
               walk components m w1 = Some (Inr w2) \<and> nextUnitOfWork w2 = Some f
               \<and> alternate (fibers w2 f) = Some 1 \<and> type (fibers w2 f) = Some (Fn g) \<longrightarrow>
               (\<exists>el w3 news.
                  updateFunctionComponent components f w2 = reconcileChildren f [el] w3
                  \<and> hooks (fibers w3 f) = Some news
                  \<and> (0 < length news \<longrightarrow>
                       state (hookStore w3 (news ! 0))
                         = fold (\<lambda>action s. action s)
                             (queue (hookStore w0 ([0] ! 0)) @ ?fs)
                             (state (hookStore w0 ([0] ! 0))))
                  \<and> (\<forall>w4. reconcileChildren f [el] w3 = Some (Inr w4) \<longrightarrow>
                        hooks (fibers w4 f) = Some news \<and> hookStore w4 = hookStore w3))"
    by (elim exE conjE)
  have c: "clicked = Some (Inr w1)"
    using calls by (simp add: clicked_def andThen_def m)
  have wk: "walk components 1 w1 = Some (Inr w2)"
    using r by (simp add: counterReached_def andThen_def c)
  from B[rule_format, of 1 w2 8 0] wk w2
  obtain el w3 news where
    e: "updateFunctionComponent components 8 w2 = reconcileChildren 8 [el] w3"
    and st: "0 < length news \<longrightarrow>
                       state (hookStore w3 (news ! 0))
                         = fold (\<lambda>action s. action s)
                             (queue (hookStore w0 ([0] ! 0)) @ ?fs)
                             (state (hookStore w0 ([0] ! 0)))"
    and af: "\<forall>w4. reconcileChildren 8 [el] w3 = Some (Inr w4) \<longrightarrow>
                        hooks (fibers w4 8) = Some news \<and> hookStore w4 = hookStore w3"
    by auto
  have rc: "reconcileChildren 8 [el] w3 = Some (Inr w4)" using e w4(1) by simp
  from af[rule_format, OF rc] w4(2) have n: "news = [1]" and hs: "hookStore w4 = hookStore w3"
    by simp_all
  have "state (hookStore w4 1) = 7"
    using st w0(5,6) by (simp add: n hs)
  then have second: "observe (\<lambda>w. (hooks (fibers w 8), state (hookStore w 1)))
       (andThen counterReached (updateFunctionComponent components 8))
     = Some (Inr (Some [1], 7))"
    using w4 by (simp add: observe_def andThen_def r)
  show ?thesis using first second by simp
qed

text \<open>
  The whole cycle on the program of the source: after the three calls and one more
  \<^verbatim>\<open>workLoop\<close> the committed hook holds \<open>((1 + 1) * 2) + 3\<close> and the text node shows it.
\<close>

lemma counter_after_three_calls:
  "observe (\<lambda>w. (state (hookStore w 1), attrs (nodes w 3) ''nodeValue'')) rerendered
     = Some (Inr (7, Some (Num 7)))"
proof -
  from rerendered_run obtain w where w: "rerendered = Some (Inr w)"
    "attrs (nodes w 3) ''nodeValue'' = Some (Num 7)" "state (hookStore w 1) = 7"
    by (elim exE conjE)
  show ?thesis using w(2-) by (simp add: observe_def w(1))
qed

subsection \<open>The commit engine\<close>

lemma onlyNodes_refl: "onlyNodes w w"
  by (simp add: onlyNodes_def)

lemma onlyNodes_fields:
  assumes "onlyNodes w w'"
  shows "fibers w' = fibers w" and "fiberCount w' = fiberCount w"
    and "hookStore w' = hookStore w" and "hookCount w' = hookCount w"
    and "nodeCount w' = nodeCount w" and "nextUnitOfWork w' = nextUnitOfWork w"
    and "currentRoot w' = currentRoot w" and "wipRoot w' = wipRoot w"
    and "deletions w' = deletions w" and "wipFiber w' = wipFiber w"
    and "hookIndex w' = hookIndex w"
proof -
  from assms have e: "w' = w\<lparr>nodes := nodes w'\<rparr>" by (simp add: onlyNodes_def)
  show "fibers w' = fibers w" by (subst e) simp
  show "fiberCount w' = fiberCount w" by (subst e) simp
  show "hookStore w' = hookStore w" by (subst e) simp
  show "hookCount w' = hookCount w" by (subst e) simp
  show "nodeCount w' = nodeCount w" by (subst e) simp
  show "nextUnitOfWork w' = nextUnitOfWork w" by (subst e) simp
  show "currentRoot w' = currentRoot w" by (subst e) simp
  show "wipRoot w' = wipRoot w" by (subst e) simp
  show "deletions w' = deletions w" by (subst e) simp
  show "wipFiber w' = wipFiber w" by (subst e) simp
  show "hookIndex w' = hookIndex w" by (subst e) simp
qed

lemma onlyNodes_trans:
  assumes "onlyNodes w w1" and "onlyNodes w1 w2"
  shows "onlyNodes w w2"
proof -
  have "w2 = w1\<lparr>nodes := nodes w2\<rparr>" using assms(2) by (simp add: onlyNodes_def)
  also have "w1 = w\<lparr>nodes := nodes w1\<rparr>" using assms(1) by (simp add: onlyNodes_def)
  finally show ?thesis by (simp add: onlyNodes_def)
qed

lemma onlyNodes_detach: "onlyNodes w (detach c w)"
  by (simp add: onlyNodes_def detach_def split: option.splits)

lemma onlyNodes_appendChild: "onlyNodes w (appendChild p c w)"
  by (simp add: onlyNodes_def appendChild_def detach_def Let_def split: option.splits)

lemma onlyNodes_updateDom: "onlyNodes w (updateDom d P N w)"
  by (simp add: onlyNodes_def updateDom_def)

lemma onlyNodes_removeChild: "removeChild p c w = Inr w' \<Longrightarrow> onlyNodes w w'"
  by (auto simp: removeChild_def onlyNodes_detach split: if_splits)

lemma onlyNodes_commitDeletion_aux:
  assumes "commitDeletion fiber domParent w = Some r"
  shows "\<forall>w'. r = Inr w' \<longrightarrow> onlyNodes w w'"
proof (rule commitDeletion.raw_induct
    [where P = "\<lambda>fiber domParent w r. \<forall>w'. r = Inr w' \<longrightarrow> onlyNodes w w'", OF _ assms],
    goal_cases)
  case (1 cd fiber domParent w r)
  then show ?case
    by (auto split: option.splits dest: onlyNodes_removeChild)
qed

lemma onlyNodes_commitDeletion:
  "commitDeletion fiber domParent w = Some (Inr w') \<Longrightarrow> onlyNodes w w'"
  using onlyNodes_commitDeletion_aux by blast

lemma onlyNodes_commitEffect:
  "commitEffect f domParent w = Some (Inr w') \<Longrightarrow> onlyNodes w w'"
  by (auto simp: commitEffect_def Let_def onlyNodes_appendChild onlyNodes_updateDom onlyNodes_refl
      split: if_splits option.splits dest: onlyNodes_commitDeletion)

lemma onlyNodes_commitWork_aux:
  assumes "commitWork fiber w = Some r"
  shows "\<forall>w'. r = Inr w' \<longrightarrow> onlyNodes w w'"
proof (rule commitWork.raw_induct
    [where P = "\<lambda>fiber w r. \<forall>w'. r = Inr w' \<longrightarrow> onlyNodes w w'", OF _ assms], goal_cases)
  case (1 cw fiber w r)
  show ?case
  proof (intro allI impI)
    fix w' assume r: "r = Inr w'"
    show "onlyNodes w w'"
    proof (cases fiber)
      case None
      with 1(2) r show ?thesis by (simp add: onlyNodes_refl)
    next
      case (Some f)
      with 1(2) r obtain d w1 w2 where
        "commitEffect f d w = Some (Inr w1)"
        "cw (child (fibers w1 f)) w1 = Some (Inr w2)"
        "cw (sibling (fibers w2 f)) w2 = Some (Inr w')"
        by (auto simp: bind_sum_Inr)
      then show ?thesis
        using 1(1) onlyNodes_commitEffect onlyNodes_trans by blast
    qed
  qed
qed

lemma onlyNodes_commitWork:
  "commitWork fiber w = Some (Inr w') \<Longrightarrow> onlyNodes w w'"
  using onlyNodes_commitWork_aux by blast

lemma onlyNodes_forEachCommitWork:
  "forEachCommitWork fs w = Some (Inr w') \<Longrightarrow> onlyNodes w w'"
proof (induction fs arbitrary: w)
  case Nil
  then show ?case by (simp add: onlyNodes_refl)
next
  case (Cons f fs)
  then obtain w1 where "commitWork (Some f) w = Some (Inr w1)"
    "forEachCommitWork fs w1 = Some (Inr w')"
    by (auto simp: bind_sum_Inr)
  then show ?case
    using Cons.IH onlyNodes_commitWork onlyNodes_trans by blast
qed

lemma commitRoot_Inr:
  assumes "commitRoot w = Some (Inr w')"
  shows "\<exists>w2 root. onlyNodes w w2 \<and> wipRoot w = Some root \<and> deletions w \<noteq> None
           \<and> w' = w2\<lparr>currentRoot := wipRoot w2, wipRoot := None\<rparr>"
proof -
  from assms obtain ds w1 root w2 where
    ds: "deletions w = Some ds" and
    a: "forEachCommitWork ds w = Some (Inr w1)" and
    r: "wipRoot w1 = Some root" and
    b: "commitWork (child (fibers w1 root)) w1 = Some (Inr w2)" and
    w': "w' = w2\<lparr>currentRoot := wipRoot w2, wipRoot := None\<rparr>"
    by (auto simp: commitRoot_def bind_sum_Inr split: option.splits)
  have 1: "onlyNodes w w1" using a by (rule onlyNodes_forEachCommitWork)
  have 2: "onlyNodes w1 w2" using b by (rule onlyNodes_commitWork)
  have "onlyNodes w w2" using 1 2 by (rule onlyNodes_trans)
  moreover have "wipRoot w = Some root" using r onlyNodes_fields(8)[OF 1] by simp
  ultimately show ?thesis using ds w' by auto
qed

text \<open>
  Claim C3, as the code has it. When \<^verbatim>\<open>commitRoot\<close> completes, \<^verbatim>\<open>currentRoot\<close> is the
  previous \<^verbatim>\<open>wipRoot\<close> and \<^verbatim>\<open>wipRoot\<close> is cleared; the pending deletions are left as
  they were (the fibers too: the commit changes the host tree only). The collection is
  emptied where a generation starts, in \<^verbatim>\<open>render\<close> and in the update capability.
\<close>

theorem commitRoot_promotes:
  assumes "commitRoot w = Some (Inr w')"
  shows "wipRoot w \<noteq> None \<and> currentRoot w' = wipRoot w \<and> wipRoot w' = None
         \<and> deletions w' = deletions w \<and> deletions w' \<noteq> None
         \<and> nextUnitOfWork w' = nextUnitOfWork w \<and> fibers w' = fibers w
         \<and> deletions (render element container w') = Some []"
proof -
  from commitRoot_Inr[OF assms] obtain w2 root where
    o: "onlyNodes w w2" and r: "wipRoot w = Some root" and d: "deletions w \<noteq> None"
    and w': "w' = w2\<lparr>currentRoot := wipRoot w2, wipRoot := None\<rparr>"
    by (elim exE conjE)
  show ?thesis
    using r d onlyNodes_fields[OF o] by (simp add: w' render_def Let_def)
qed

theorem commitRoot_promotes_witness:
  "currentRoot (ending replaced) = wipRoot (ending replacedWalk)
   \<and> wipRoot (ending replacedWalk) = Some 4
   \<and> wipRoot (ending replaced) = None
   \<and> deletions (ending replaced) = deletions (ending replacedWalk)"
proof -
  from replacedWalk_run obtain w where w: "replacedWalk = Some (Inr w)" "wipRoot w = Some 4"
    by (elim exE conjE)
  from replaced_run obtain w' where w': "replaced = Some (Inr w')"
    by (elim exE conjE)
  have "commitRoot w = Some (Inr w')"
    using w' by (simp add: replaced_def andThen_def w(1))
  from commitRoot_promotes[OF this] w(2) show ?thesis
    by (simp add: ending_def w(1) w')
qed

text \<open>
  Against claim C3 as stated: the commit of the second page leaves the fiber of the
  removed component in the pending deletions.
\<close>

theorem commitRoot_keeps_deletions:
  "observe (\<lambda>w. (currentRoot w, wipRoot w, deletions w)) replaced
     = Some (Inr (Some 4, None, Some [1]))"
proof -
  from replaced_run obtain w where w: "replaced = Some (Inr w)" "currentRoot w = Some 4"
    "wipRoot w = None" "deletions w = Some [1]"
    by (elim exE conjE)
  show ?thesis using w(2-) by (simp add: observe_def w(1))
qed

text \<open>
  Claim C5, on the scenario where it fails. The first page is the component \<open>Heading\<close>,
  whose fiber (address 1) has no host node and whose child (address 2) owns the host
  node 1 of the heading. The second page is a \<^verbatim>\<open>div\<close>. After the commit of the second page
  the fiber of the component is tagged \<open>DELETION\<close>, and the heading's host node is still
  a child of the container (node 0), before the new \<^verbatim>\<open>div\<close> (node 3): \<^verbatim>\<open>commitWork\<close>
  removes it in \<^verbatim>\<open>commitDeletion\<close> and then goes on to \<^verbatim>\<open>fiber.child\<close>, which still
  carries the tag \<open>PLACEMENT\<close> of the first generation and is appended again.
\<close>

theorem deleted_component_host_node_stays:
  "observe (\<lambda>w. (effectTag (fibers w 1), dom (fibers w 1), child (fibers w 1),
                  dom (fibers w 2), parentNode (nodes w 1), childNodes (nodes w 0))) replaced
     = Some (Inr (Some DELETION, None, Some 2, Some 1, Some 0, [1, 3]))"
proof -
  from replaced_run obtain w where w: "replaced = Some (Inr w)"
    "effectTag (fibers w 1) = Some DELETION" "dom (fibers w 1) = None"
    "child (fibers w 1) = Some 2" "dom (fibers w 2) = Some 1"
    "parentNode (nodes w 1) = Some 0" "childNodes (nodes w 0) = [1, 3]"
    by (elim exE conjE)
  show ?thesis using w(2-) by (simp add: observe_def w(1))
qed

text \<open>
  Claim C5, a second scenario where it fails: both children of a \<^verbatim>\<open>div\<close> are removed. The
  commit of the first removed fiber goes on to its sibling, which is removed there; the
  turn of the sibling in \<^verbatim>\<open>deletions.forEach\<close> removes it again and the host throws.
\<close>

lemma removing_two_siblings_throws: "emptied = Some (Inl NotFoundError)"
  by (simp add: emptied_def run_simps)

subsection \<open>The reconciler\<close>

lemma removedOlds_Suc:
  "removedOlds fs elements olds (Suc i) =
     removedOlds fs elements olds i
     @ (if i < length olds \<and> \<not> sameTypeAt fs elements olds i then [olds ! i] else [])"
proof (cases "i < length olds")
  case True
  then show ?thesis by (simp add: removedOlds_def min_def)
next
  case False
  then have "min (Suc i) (length olds) = min i (length olds)" by simp
  with False show ?thesis by (simp add: removedOlds_def)
qed

lemma removedOlds_0: "removedOlds fs elements olds 0 = []"
  by (simp add: removedOlds_def)

lemma isChain_start:
  "isChain fs start rs \<Longrightarrow> start = (if rs = [] then None else Some (rs ! 0))"
  by (cases rs) auto

lemma isChain_sibling:
  "isChain fs start rs \<Longrightarrow> i < length rs \<Longrightarrow>
   sibling (fs (rs ! i)) = (if Suc i < length rs then Some (rs ! Suc i) else None)"
proof (induction rs arbitrary: start i)
  case Nil
  then show ?case by simp
next
  case (Cons r rs)
  show ?case
  proof (cases i)
    case 0
    with Cons.prems isChain_start[of fs "sibling (fs r)" rs] show ?thesis by auto
  next
    case (Suc j)
    with Cons.prems Cons.IH[of "sibling (fs r)" j] show ?thesis by auto
  qed
qed

lemma reconciledUpTo_simps:
  "fibers (reconciledUpTo w0 wip elements olds i) = reconciledFibers w0 wip elements olds i"
  "fiberCount (reconciledUpTo w0 wip elements olds i) = fiberCount w0 + min i (length elements)"
  "deletions (reconciledUpTo w0 wip elements olds i)
     = map_option (\<lambda>ds. ds @ removedOlds (fibers w0) elements olds i) (deletions w0)"
  by (simp_all add: reconciledUpTo_def)

lemma reconciledFibers_old:
  assumes "r < fiberCount w0"
  shows "type (reconciledFibers w0 wip elements olds i r) = type (fibers w0 r)"
    and "dom (reconciledFibers w0 wip elements olds i r) = dom (fibers w0 r)"
    and "sibling (reconciledFibers w0 wip elements olds i r) = sibling (fibers w0 r)"
  using assms by (simp_all add: reconciledFibers_def Let_def)

lemma F_old:
  assumes "r < fiberCount w0"
  shows "reconciledFibers w0 wip elements olds i r =
     (fibers w0 r)
       \<lparr>child := (if r = wip \<and> 0 < i then (if elements = [] then None else Some (fiberCount w0))
                  else child (fibers w0 r)),
        effectTag := (if r \<in> set (removedOlds (fibers w0) elements olds i) then Some DELETION
                      else effectTag (fibers w0 r))\<rparr>"
  using assms by (simp add: reconciledFibers_def Let_def)

lemma F_new:
  assumes "fiberCount w0 \<le> r" "r < fiberCount w0 + min i (length elements)"
  shows "reconciledFibers w0 wip elements olds i r =
     (producedUnit (fibers w0) wip elements olds (r - fiberCount w0))
       \<lparr>sibling := (if r + 1 < fiberCount w0 + min i (length elements) then Some (r + 1)
                    else None)\<rparr>"
  using assms by (simp add: reconciledFibers_def Let_def)

lemma F_free:
  assumes "fiberCount w0 + min i (length elements) \<le> r"
  shows "reconciledFibers w0 wip elements olds i r = fibers w0 r"
  using assms by (simp add: reconciledFibers_def Let_def)

lemma F_Suc_old:
  assumes wip: "wip < fiberCount w0"
    and old: "r < fiberCount w0"
  shows "reconciledFibers w0 wip elements olds (Suc i) r
         = stepFibers w0 wip elements olds i (reconciledFibers w0 wip elements olds i) r"
proof -
  let ?n0 = "fiberCount w0"
  let ?F = "reconciledFibers w0 wip elements olds"
  let ?D = "i < length olds \<and> \<not> sameTypeAt (fibers w0) elements olds i \<and> r = olds ! i"
  have r_ne: "r \<noteq> ?n0 + i" using old by linarith
  have s1: "stepFibers w0 wip elements olds i (?F i) r =
      (?F i r)\<lparr>effectTag := (if ?D then Some DELETION else effectTag (?F i r)),
                child := (if i = 0 \<and> r = wip
                          then (if i < length elements then Some ?n0 else None)
                          else child (?F i r))\<rparr>"
  proof (cases "i = 0")
    case True
    then show ?thesis using r_ne by (simp add: stepFibers_def Let_def)
  next
    case False
    then have "r \<noteq> ?n0 + i - Suc 0" using old by linarith
    then show ?thesis using False r_ne by (simp add: stepFibers_def Let_def)
  qed
  have mem: "r \<in> set (removedOlds (fibers w0) elements olds (Suc i))
      \<longleftrightarrow> r \<in> set (removedOlds (fibers w0) elements olds i) \<or> ?D"
    by (auto simp: removedOlds_Suc)
  show ?thesis
    unfolding s1 F_old[OF old] mem
    by (cases "i = 0") simp_all
qed

lemma F_Suc_new:
  assumes wip: "wip < fiberCount w0"
    and old_lt: "i < length olds \<Longrightarrow> olds ! i < fiberCount w0"
    and new: "fiberCount w0 \<le> r" "r < fiberCount w0 + min i (length elements)"
  shows "reconciledFibers w0 wip elements olds (Suc i) r
         = stepFibers w0 wip elements olds i (reconciledFibers w0 wip elements olds i) r"
proof -
  let ?n0 = "fiberCount w0"
  let ?F = "reconciledFibers w0 wip elements olds"
  have ri: "r < ?n0 + i" using new(2) by simp
  then have il: "0 < i" using new(1) by linarith
  have ne1: "r \<noteq> wip" using new(1) wip by linarith
  have ne2: "r \<noteq> ?n0 + i" using ri by linarith
  have ne3: "r \<noteq> olds ! i" if "i < length olds" using new(1) old_lt[OF that] by linarith
  have a: "?F (Suc i) r = (producedUnit (fibers w0) wip elements olds (r - ?n0))
     \<lparr>sibling := (if r + 1 < ?n0 + min (Suc i) (length elements) then Some (r + 1) else None)\<rparr>"
  proof (rule F_new)
    show "?n0 \<le> r" by (rule new(1))
    show "r < ?n0 + min (Suc i) (length elements)" using new(2) by (simp add: min_def split: if_splits)
  qed
  have b: "?F i r = (producedUnit (fibers w0) wip elements olds (r - ?n0))
     \<lparr>sibling := (if r + 1 < ?n0 + min i (length elements) then Some (r + 1) else None)\<rparr>"
    using new by (rule F_new)
  have s1: "stepFibers w0 wip elements olds i (?F i) r =
      (?F i r)\<lparr>sibling := (if i < length elements \<and> r = ?n0 + i - Suc 0 then Some (?n0 + i)
                            else sibling (?F i r))\<rparr>"
    using il ne1 ne2 ne3 by (simp add: stepFibers_def Let_def)
  show ?thesis
  proof (cases "i < length elements")
    case True
    then have m: "min i (length elements) = i" "min (Suc i) (length elements) = Suc i" by auto
    have c: "r + 1 < ?n0 + Suc i" using ri by linarith
    have d: "r = ?n0 + i - Suc 0 \<longleftrightarrow> \<not> r + 1 < ?n0 + i" using ri il by linarith
    show ?thesis unfolding s1 a b m using True c d by simp
  next
    case False
    then have m: "min (Suc i) (length elements) = min i (length elements)" by auto
    show ?thesis unfolding s1 a b m using False by simp
  qed
qed

lemma F_Suc_fresh:
  assumes wip: "wip < fiberCount w0"
    and old_lt: "i < length olds \<Longrightarrow> olds ! i < fiberCount w0"
    and fresh: "r = fiberCount w0 + i" "i < length elements"
  shows "reconciledFibers w0 wip elements olds (Suc i) r
         = stepFibers w0 wip elements olds i (reconciledFibers w0 wip elements olds i) r"
proof -
  let ?n0 = "fiberCount w0"
  let ?F = "reconciledFibers w0 wip elements olds"
  have ne1: "r \<noteq> wip" using fresh(1) wip by linarith
  have ne2: "r \<noteq> olds ! i" if "i < length olds" using fresh(1) old_lt[OF that] by linarith
  have ne3: "r \<noteq> ?n0 + i - Suc 0" if "0 < i" using fresh(1) that by linarith
  have m: "min (Suc i) (length elements) = Suc i" using fresh by simp
  have "?F (Suc i) r = (producedUnit (fibers w0) wip elements olds (r - ?n0))
     \<lparr>sibling := (if r + 1 < ?n0 + min (Suc i) (length elements) then Some (r + 1) else None)\<rparr>"
  proof (rule F_new)
    show "?n0 \<le> r" using fresh(1) by simp
    show "r < ?n0 + min (Suc i) (length elements)" unfolding m using fresh(1) by simp
  qed
  also have "\<dots> = (producedUnit (fibers w0) wip elements olds i)\<lparr>sibling := None\<rparr>"
    unfolding m using fresh by simp
  also have "\<dots> = producedUnit (fibers w0) wip elements olds i"
    by (simp add: producedUnit_def)
  finally have a: "?F (Suc i) r = producedUnit (fibers w0) wip elements olds i" .
  have s1: "stepFibers w0 wip elements olds i (?F i) r
      = producedUnit (fibers w0) wip elements olds i"
  proof (cases "i = 0")
    case True
    then show ?thesis using fresh ne1 ne2 by (simp add: stepFibers_def Let_def)
  next
    case False
    then have "r \<noteq> ?n0 + i - Suc 0" using ne3 by simp
    then show ?thesis using False fresh ne1 ne2 by (simp add: stepFibers_def Let_def)
  qed
  show ?thesis unfolding a s1 ..
qed

lemma F_Suc_free:
  assumes wip: "wip < fiberCount w0"
    and old_lt: "i < length olds \<Longrightarrow> olds ! i < fiberCount w0"
    and free: "fiberCount w0 + min (Suc i) (length elements) \<le> r"
  shows "reconciledFibers w0 wip elements olds (Suc i) r
         = stepFibers w0 wip elements olds i (reconciledFibers w0 wip elements olds i) r"
proof -
  let ?n0 = "fiberCount w0"
  let ?F = "reconciledFibers w0 wip elements olds"
  have rl: "?n0 \<le> r" using free by linarith
  have ne1: "r \<noteq> wip" using rl wip by linarith
  have ne2: "r \<noteq> olds ! i" if "i < length olds" using rl old_lt[OF that] by linarith
  have a: "?F (Suc i) r = fibers w0 r" using free by (rule F_free)
  have mi: "min i (length elements) \<le> min (Suc i) (length elements)" by simp
  have b: "?F i r = fibers w0 r"
  proof (rule F_free)
    show "?n0 + min i (length elements) \<le> r" using free mi by linarith
  qed
  show ?thesis
  proof (cases "i < length elements")
    case True
    then have "min (Suc i) (length elements) = Suc i" by simp
    with free have "?n0 + Suc i \<le> r" by simp
    then have ne3: "r \<noteq> ?n0 + i" "r \<noteq> ?n0 + i - Suc 0" by linarith+
    show ?thesis
      unfolding a
      using True ne1 ne2 ne3 b by (cases "i = 0") (simp_all add: stepFibers_def Let_def)
  next
    case False
    have i0: "i \<noteq> 0 \<or> r \<noteq> wip" using ne1 by simp
    show ?thesis
      unfolding a
      using False ne1 ne2 b by (cases "i = 0") (simp_all add: stepFibers_def Let_def)
  qed
qed

lemma F_Suc:
  assumes wip: "wip < fiberCount w0"
    and olds: "\<forall>r \<in> set olds. r < fiberCount w0"
  shows "reconciledFibers w0 wip elements olds (Suc i)
         = stepFibers w0 wip elements olds i (reconciledFibers w0 wip elements olds i)"
proof
  fix r
  let ?n0 = "fiberCount w0"
  have old_lt: "olds ! i < ?n0" if "i < length olds"
    using olds that by simp
  have "r < ?n0 \<or> (?n0 \<le> r \<and> r < ?n0 + min i (length elements))
      \<or> (r = ?n0 + i \<and> i < length elements)
      \<or> ?n0 + min (Suc i) (length elements) \<le> r"
    by (cases "i < length elements") (auto simp: min_def)
  then show "reconciledFibers w0 wip elements olds (Suc i) r
      = stepFibers w0 wip elements olds i (reconciledFibers w0 wip elements olds i) r"
    using F_Suc_old[OF wip] F_Suc_new[OF wip old_lt] F_Suc_fresh[OF wip old_lt]
      F_Suc_free[OF wip old_lt]
    by blast
qed

lemma elementAt_padded:
  "elementAt (map Some elements @ replicate n None) i
     = (if i < length elements then Some (elements ! i) else None)"
  by (simp add: elementAt_def nth_append)

lemma elementAt_nulls: "elementAt (replicate n None) i = None"
  by (simp add: elementAt_def)

lemma elementAt_elements:
  "elementAt (map Some elements) i = (if i < length elements then Some (elements ! i) else None)"
  by (simp add: elementAt_def)

lemma reconcileStep_both:
  assumes iL: "i < length elements" and iM: "i < length olds"
    and sib: "sibling (fibers w0 (olds ! i)) = nxt"
    and ds: "deletions w0 = Some ds0"
    and wip: "wip < fiberCount w0"
    and old_lt: "olds ! i < fiberCount w0"
  shows "reconcileStep wip (map Some elements @ replicate n None) i (Some (olds ! i))
           (if 0 < i then Some (fiberCount w0 + i - 1) else None)
           (reconciledUpTo w0 wip elements olds i)
         = Inr (nxt, Some (fiberCount w0 + i),
                (reconciledUpTo w0 wip elements olds i)
                  \<lparr>fibers := stepFibers w0 wip elements olds i
                               (reconciledFibers w0 wip elements olds i),
                   fiberCount := fiberCount w0 + Suc i,
                   deletions := Some (ds0 @ removedOlds (fibers w0) elements olds (Suc i))\<rparr>)"
proof -
  let ?S = "reconciledUpTo w0 wip elements olds i"
  have ty: "type (fibers ?S (olds ! i)) = type (fibers w0 (olds ! i))"
    and dm: "dom (fibers ?S (olds ! i)) = dom (fibers w0 (olds ! i))"
    using old_lt by (simp_all add: reconciledUpTo_simps reconciledFibers_old)
  have fc: "fiberCount ?S = fiberCount w0 + i" using iL by (simp add: reconciledUpTo_simps)
  have dl: "deletions ?S = Some (ds0 @ removedOlds (fibers w0) elements olds i)"
    using ds by (simp add: reconciledUpTo_simps)
  have ne: "olds ! i \<noteq> fiberCount w0 + i" using old_lt by linarith
  show ?thesis
  proof (cases "sameTypeAt (fibers w0) elements olds i")
    case True
    then have st: "Some (el_type (elements ! i)) = type (fibers w0 (olds ! i))"
      by (simp add: sameTypeAt_def)
    have pu: "producedUnit (fibers w0) wip elements olds i =
        \<lparr>type = type (fibers w0 (olds ! i)), props = el_props (elements ! i),
         dom = dom (fibers w0 (olds ! i)), parent = Some wip, child = None, sibling = None,
         alternate = Some (olds ! i), effectTag = Some UPDATE, hooks = None\<rparr>"
      using True by (simp add: producedUnit_def)
    have sb: "sibling (fibers ?S (olds ! i)) = nxt"
      using old_lt sib by (simp add: reconciledUpTo_simps reconciledFibers_old)
    show ?thesis
      using iL iM True st ty dm fc dl ne sb pu[symmetric] wip old_lt
      by (cases "i = 0")
         (simp_all add: reconcileStep_def elementAt_padded elementAt_nulls elementAt_elements
          Let_def stepFibers_def
            removedOlds_Suc reconciledUpTo_simps)
  next
    case False
    then have st: "Some (el_type (elements ! i)) \<noteq> type (fibers w0 (olds ! i))"
      using iL iM by (simp add: sameTypeAt_def)
    have pu: "producedUnit (fibers w0) wip elements olds i =
        \<lparr>type = Some (el_type (elements ! i)), props = el_props (elements ! i),
         dom = None, parent = Some wip, child = None, sibling = None,
         alternate = None, effectTag = Some PLACEMENT, hooks = None\<rparr>"
      using False by (simp add: producedUnit_def)
    have sb: "sibling (reconciledFibers w0 wip elements olds i (olds ! i)) = nxt"
      using old_lt sib by (simp add: reconciledFibers_old)
    show ?thesis
      using iL iM False st ty dm fc dl ne sb pu[symmetric] wip old_lt
      by (cases "i = 0")
         (simp_all add: reconcileStep_def elementAt_padded elementAt_nulls elementAt_elements
          Let_def stepFibers_def
            removedOlds_Suc reconciledUpTo_simps)
  qed
qed

lemma reconcileStep_element_only:
  assumes iL: "i < length elements" and iM: "\<not> i < length olds"
    and ds: "deletions w0 = Some ds0"
    and wip: "wip < fiberCount w0"
  shows "reconcileStep wip (map Some elements @ replicate n None) i None
           (if 0 < i then Some (fiberCount w0 + i - 1) else None)
           (reconciledUpTo w0 wip elements olds i)
         = Inr (None, Some (fiberCount w0 + i),
                (reconciledUpTo w0 wip elements olds i)
                  \<lparr>fibers := stepFibers w0 wip elements olds i
                               (reconciledFibers w0 wip elements olds i),
                   fiberCount := fiberCount w0 + Suc i,
                   deletions := Some (ds0 @ removedOlds (fibers w0) elements olds (Suc i))\<rparr>)"
proof -
  let ?S = "reconciledUpTo w0 wip elements olds i"
  have fc: "fiberCount ?S = fiberCount w0 + i" using iL by (simp add: reconciledUpTo_simps)
  have dl: "deletions ?S = Some (ds0 @ removedOlds (fibers w0) elements olds i)"
    using ds by (simp add: reconciledUpTo_simps)
  have ns: "\<not> sameTypeAt (fibers w0) elements olds i" using iM by (simp add: sameTypeAt_def)
  have pu: "producedUnit (fibers w0) wip elements olds i =
      \<lparr>type = Some (el_type (elements ! i)), props = el_props (elements ! i),
       dom = None, parent = Some wip, child = None, sibling = None,
       alternate = None, effectTag = Some PLACEMENT, hooks = None\<rparr>"
    using ns by (simp add: producedUnit_def)
  show ?thesis
    using iL iM ns fc dl pu[symmetric] wip
    by (cases "i = 0")
       (simp_all add: reconcileStep_def elementAt_padded elementAt_nulls elementAt_elements
          Let_def stepFibers_def
          removedOlds_Suc reconciledUpTo_simps)
qed

lemma reconcileStep_old_only:
  assumes iL: "\<not> i < length elements" and iM: "i < length olds"
    and sib: "sibling (fibers w0 (olds ! i)) = nxt"
    and ds: "deletions w0 = Some ds0"
    and wip: "wip < fiberCount w0"
    and old_lt: "olds ! i < fiberCount w0"
  shows "reconcileStep wip (map Some elements @ replicate n None) i (Some (olds ! i)) prev
           (reconciledUpTo w0 wip elements olds i)
         = Inr (nxt, None,
                (reconciledUpTo w0 wip elements olds i)
                  \<lparr>fibers := stepFibers w0 wip elements olds i
                               (reconciledFibers w0 wip elements olds i),
                   fiberCount := fiberCount w0 + length elements,
                   deletions := Some (ds0 @ removedOlds (fibers w0) elements olds (Suc i))\<rparr>)"
proof -
  let ?S = "reconciledUpTo w0 wip elements olds i"
  have fc: "fiberCount ?S = fiberCount w0 + length elements"
    using iL by (simp add: reconciledUpTo_simps min_def)
  have dl: "deletions ?S = Some (ds0 @ removedOlds (fibers w0) elements olds i)"
    using ds by (simp add: reconciledUpTo_simps)
  have ns: "\<not> sameTypeAt (fibers w0) elements olds i" using iL by (simp add: sameTypeAt_def)
  have sb: "sibling (reconciledFibers w0 wip elements olds i (olds ! i)) = nxt"
    using old_lt sib by (simp add: reconciledFibers_old)
  show ?thesis
    using iL iM ns fc dl sb wip old_lt
    by (cases "i = 0")
       (simp_all add: reconcileStep_def elementAt_padded elementAt_nulls elementAt_elements
          Let_def stepFibers_def
          removedOlds_Suc reconciledUpTo_simps)
qed

lemma reconcileStep_neither:
  assumes iL: "\<not> i < length elements" and iM: "\<not> i < length olds"
    and ds: "deletions w0 = Some ds0"
    and wip: "wip < fiberCount w0"
  shows "reconcileStep wip (map Some elements @ replicate n None) i None prev
           (reconciledUpTo w0 wip elements olds i)
         = Inr (None, None,
                (reconciledUpTo w0 wip elements olds i)
                  \<lparr>fibers := stepFibers w0 wip elements olds i
                               (reconciledFibers w0 wip elements olds i),
                   fiberCount := fiberCount w0 + length elements,
                   deletions := Some (ds0 @ removedOlds (fibers w0) elements olds (Suc i))\<rparr>)"
proof -
  let ?S = "reconciledUpTo w0 wip elements olds i"
  have fc: "fiberCount ?S = fiberCount w0 + length elements"
    using iL by (simp add: reconciledUpTo_simps min_def)
  have dl: "deletions ?S = Some (ds0 @ removedOlds (fibers w0) elements olds i)"
    using ds by (simp add: reconciledUpTo_simps)
  show ?thesis
    using iL iM fc dl wip
    by (cases "i = 0")
       (simp_all add: reconcileStep_def elementAt_padded elementAt_nulls elementAt_elements
          Let_def stepFibers_def
          removedOlds_Suc reconciledUpTo_simps)
qed

lemma reconcileStep_reconciledUpTo:
  assumes ch: "isChain (fibers w0) start olds"
    and ds: "deletions w0 = Some ds0"
    and wip: "wip < fiberCount w0"
    and olds: "\<forall>r \<in> set olds. r < fiberCount w0"
  shows "reconcileStep wip (map Some elements @ replicate n None) i
           (if i < length olds then Some (olds ! i) else None)
           (if 0 < i \<and> i \<le> length elements then Some (fiberCount w0 + i - 1) else None)
           (reconciledUpTo w0 wip elements olds i)
         = Inr (if Suc i < length olds then Some (olds ! Suc i) else None,
                if 0 < Suc i \<and> Suc i \<le> length elements then Some (fiberCount w0 + Suc i - 1)
                else None,
                reconciledUpTo w0 wip elements olds (Suc i))"
proof -
  let ?S = "reconciledUpTo w0 wip elements olds i"
  have tgt: "reconciledUpTo w0 wip elements olds (Suc i) =
      ?S\<lparr>fibers := stepFibers w0 wip elements olds i (reconciledFibers w0 wip elements olds i),
         fiberCount := fiberCount w0 + min (Suc i) (length elements),
         deletions := Some (ds0 @ removedOlds (fibers w0) elements olds (Suc i))\<rparr>"
    using ds by (simp add: reconciledUpTo_def F_Suc[OF wip olds])
  have old_lt: "olds ! i < fiberCount w0" if "i < length olds"
    using olds that by simp
  have sib: "sibling (fibers w0 (olds ! i))
      = (if Suc i < length olds then Some (olds ! Suc i) else None)" if "i < length olds"
    using isChain_sibling[OF ch that] .
  consider (both) "i < length elements" "i < length olds"
    | (el) "i < length elements" "\<not> i < length olds"
    | (old) "\<not> i < length elements" "i < length olds"
    | (neither) "\<not> i < length elements" "\<not> i < length olds"
    by blast
  then show ?thesis
  proof cases
    case both
    have m: "min (Suc i) (length elements) = Suc i" using both(1) by simp
    show ?thesis
      unfolding tgt m
      using reconcileStep_both[OF both sib[OF both(2)] ds wip old_lt[OF both(2)], of n] both
      by simp
  next
    case el
    have m: "min (Suc i) (length elements) = Suc i" using el(1) by simp
    show ?thesis
      unfolding tgt m
      using reconcileStep_element_only[OF el ds wip, of n] el by simp
  next
    case old
    have m: "min (Suc i) (length elements) = length elements" using old(1) by simp
    show ?thesis
      unfolding tgt m
      using reconcileStep_old_only[OF old sib[OF old(2)] ds wip old_lt[OF old(2)], of n] old
      by simp
  next
    case neither
    have m: "min (Suc i) (length elements) = length elements" using neither(1) by simp
    show ?thesis
      unfolding tgt m
      using reconcileStep_neither[OF neither ds wip, of n] neither by simp
  qed
qed

lemma reconciledUpTo_0:
  assumes "deletions w0 = Some ds0"
  shows "reconciledUpTo w0 wip elements olds 0 = w0"
proof -
  have "reconciledFibers w0 wip elements olds 0 = fibers w0"
    by (rule ext) (simp add: reconciledFibers_def removedOlds_0 Let_def)
  then show ?thesis using assms by (simp add: reconciledUpTo_def removedOlds_0)
qed

lemma reconcileLoop_reconciledUpTo:
  assumes ch: "isChain (fibers w0) start olds"
    and ds: "deletions w0 = Some ds0"
    and wip: "wip < fiberCount w0"
    and olds: "\<forall>r \<in> set olds. r < fiberCount w0"
  shows "i \<le> max (length elements + n) (length olds) \<Longrightarrow>
         reconcileLoop wip (map Some elements @ replicate n None) i
           (if i < length olds then Some (olds ! i) else None)
           (if 0 < i \<and> i \<le> length elements then Some (fiberCount w0 + i - 1) else None)
           (reconciledUpTo w0 wip elements olds i)
         = Some (Inr (reconciled w0 wip elements n olds))"
proof (induction "max (length elements + n) (length olds) - i" arbitrary: i)
  case 0
  then have i: "i = max (length elements + n) (length olds)" by arith
  then have "\<not> i < length elements + n" "\<not> i < length olds" by auto
  then show ?case
    by (subst reconcileLoop.simps) (simp add: reconciled_def i)
next
  case (Suc k)
  then have lt: "i < length elements + n \<or> i < length olds" by auto
  have k: "k = max (length elements + n) (length olds) - Suc i" using Suc.hyps(2) by simp
  have le: "Suc i \<le> max (length elements + n) (length olds)" using lt by auto
  have cond: "i < length (map Some elements @ replicate n None)
      \<or> (if i < length olds then Some (olds ! i) else None) \<noteq> None"
    using lt by auto
  show ?case
    apply (subst reconcileLoop.simps)
    apply (simp only: cond if_True reconcileStep_reconciledUpTo[OF ch ds wip olds])
    apply (simp only: sum.case prod.case Suc_eq_plus1[symmetric])
    apply (rule Suc.hyps(1)[OF k le])
    done
qed

lemma reconcileChildren_reconciled:
  assumes ch: "isChain (fibers w)
                 (case alternate (fibers w wip) of None \<Rightarrow> None | Some a \<Rightarrow> child (fibers w a))
                 olds"
    and ds: "deletions w = Some ds"
    and wip: "wip < fiberCount w"
    and olds: "\<forall>r \<in> set olds. r < fiberCount w"
  shows "reconcileChildren wip (map Some elements @ replicate n None) w
         = Some (Inr (reconciled w wip elements n olds))"
proof -
  have st: "(case alternate (fibers w wip) of None \<Rightarrow> None | Some a \<Rightarrow> child (fibers w a))
      = (if 0 < length olds then Some (olds ! 0) else None)"
    using isChain_start[OF ch] by simp
  show ?thesis
    unfolding reconcileChildren_def st
    using reconcileLoop_reconciledUpTo[OF ch ds wip olds, of 0 elements n]
    by (simp add: reconciledUpTo_0[OF ds])
qed

lemma isChain_unique:
  "isChain fs start rs \<Longrightarrow> isChain fs start rs' \<Longrightarrow> rs = rs'"
proof (induction rs arbitrary: start rs')
  case Nil
  then show ?case by (cases rs') auto
next
  case (Cons r rs)
  then show ?case by (cases rs') auto
qed

lemma isChain_drop:
  "isChain fs start rs \<Longrightarrow> k < length rs \<Longrightarrow> isChain fs (Some (rs ! k)) (drop k rs)"
proof (induction rs arbitrary: start k)
  case Nil
  then show ?case by simp
next
  case (Cons r rs)
  show ?case
  proof (cases k)
    case 0
    with Cons.prems show ?thesis by simp
  next
    case (Suc j)
    with Cons.prems have "isChain fs (Some (rs ! j)) (drop j rs)"
      by (intro Cons.IH[of "sibling (fs r)"]) auto
    with Suc show ?thesis by simp
  qed
qed

lemma isChain_distinct: "isChain fs start rs \<Longrightarrow> distinct rs"
proof (induction rs arbitrary: start)
  case Nil
  then show ?case by simp
next
  case (Cons r rs)
  then have tl: "isChain fs (sibling (fs r)) rs" and st: "start = Some r" by auto
  have "r \<notin> set rs"
  proof
    assume "r \<in> set rs"
    then obtain k where k: "k < length rs" "rs ! k = r" by (auto simp: in_set_conv_nth)
    have "isChain fs (Some r) (drop k rs)" using isChain_drop[OF tl k(1)] k(2) by simp
    moreover have "isChain fs (Some r) (r # rs)" using Cons.prems st by simp
    ultimately have "drop k rs = r # rs" by (rule isChain_unique)
    then have "length (drop k rs) = length (r # rs)" by simp
    then show False by simp
  qed
  moreover have "distinct rs" using tl by (rule Cons.IH)
  ultimately show ?case by simp
qed

lemma isChain_new:
  assumes "\<And>j. j < L \<Longrightarrow> sibling (F (n0 + j)) = (if Suc j < L then Some (n0 + Suc j) else None)"
  shows "j \<le> L \<Longrightarrow>
         isChain F (if j < L then Some (n0 + j) else None) (map (\<lambda>k. n0 + k) [j..<L])"
proof (induction "L - j" arbitrary: j)
  case 0
  then show ?case by simp
next
  case (Suc d)
  then have jl: "j < L" by simp
  have "isChain F (if Suc j < L then Some (n0 + Suc j) else None) (map (\<lambda>k. n0 + k) [Suc j..<L])"
    using Suc.hyps(2) jl by (intro Suc.hyps(1)) auto
  then show ?case using jl assms[OF jl] by (simp add: upt_conv_Cons)
qed

lemma reconciled_fields:
  "fibers (reconciled w wip elements n olds)
     = reconciledFibers w wip elements olds (max (length elements + n) (length olds))"
  "fiberCount (reconciled w wip elements n olds) = fiberCount w + length elements"
  "deletions (reconciled w wip elements n olds)
     = map_option (\<lambda>ds. ds @ removedOlds (fibers w) elements olds (length olds)) (deletions w)"
  "hookStore (reconciled w wip elements n olds) = hookStore w"
  "hookCount (reconciled w wip elements n olds) = hookCount w"
  "nodes (reconciled w wip elements n olds) = nodes w"
  "nodeCount (reconciled w wip elements n olds) = nodeCount w"
  "nextUnitOfWork (reconciled w wip elements n olds) = nextUnitOfWork w"
  "currentRoot (reconciled w wip elements n olds) = currentRoot w"
  "wipRoot (reconciled w wip elements n olds) = wipRoot w"
  "wipFiber (reconciled w wip elements n olds) = wipFiber w"
  "hookIndex (reconciled w wip elements n olds) = hookIndex w"
proof -
  have m: "min (max (length elements + n) (length olds)) (length elements) = length elements"
    "min (max (length elements + n) (length olds)) (length olds) = length olds"
    by simp_all
  show "fiberCount (reconciled w wip elements n olds) = fiberCount w + length elements"
    by (simp add: reconciled_def reconciledUpTo_def m)
  show "deletions (reconciled w wip elements n olds)
     = map_option (\<lambda>ds. ds @ removedOlds (fibers w) elements olds (length olds)) (deletions w)"
    by (simp add: reconciled_def reconciledUpTo_def removedOlds_def m)
qed (simp_all add: reconciled_def reconciledUpTo_def)

lemma reconciled_new:
  assumes "j < length elements"
  shows "fibers (reconciled w wip elements n olds) (fiberCount w + j) =
     (producedUnit (fibers w) wip elements olds j)
       \<lparr>sibling := (if Suc j < length elements then Some (fiberCount w + Suc j) else None)\<rparr>"
proof -
  have m: "min (max (length elements + n) (length olds)) (length elements) = length elements"
    by simp
  show ?thesis
    unfolding reconciled_fields(1)
    using assms by (subst F_new) (simp_all add: m)
qed

lemma reconciled_old:
  assumes "r < fiberCount w"
  shows "fibers (reconciled w wip elements n olds) r =
     (fibers w r)
       \<lparr>child := (if r = wip \<and> (elements \<noteq> [] \<or> 0 < n \<or> olds \<noteq> [])
                  then (if elements = [] then None else Some (fiberCount w))
                  else child (fibers w r)),
        effectTag := (if r \<in> set (removedOlds (fibers w) elements olds (length olds))
                      then Some DELETION else effectTag (fibers w r))\<rparr>"
proof -
  have a: "removedOlds (fibers w) elements olds (max (length elements + n) (length olds))
      = removedOlds (fibers w) elements olds (length olds)"
    by (simp add: removedOlds_def)
  have b: "0 < max (length elements + n) (length olds)
      \<longleftrightarrow> elements \<noteq> [] \<or> 0 < n \<or> olds \<noteq> []"
    by (cases elements; cases olds) simp_all
  show ?thesis
    unfolding reconciled_fields(1) F_old[OF assms] a b ..
qed

lemma reconciled_nothing:
  assumes "deletions w = Some ds"
  shows "reconciled w wip [] 0 [] = w"
  using reconciledUpTo_0[OF assms] by (simp add: reconciled_def)

lemma set_removedOlds:
  "set (removedOlds fs elements olds (length olds))
     = {olds ! j | j. j < length olds \<and> \<not> sameTypeAt fs elements olds j}"
  by (auto simp: removedOlds_def)

lemma distinct_removedOlds:
  assumes "distinct olds"
  shows "distinct (removedOlds fs elements olds i)"
  unfolding removedOlds_def
  using assms by (auto simp: distinct_map inj_on_def nth_eq_iff_index_eq)

lemma count_list_distinct:
  "distinct xs \<Longrightarrow> x \<in> set xs \<Longrightarrow> count_list xs x = 1"
  by (induction xs) auto

lemma sameTypeAt_iff:
  "sameTypeAt fs elements olds i \<longleftrightarrow>
     i < length elements \<and> i < length olds \<and> Some (el_type (elements ! i)) = type (fs (olds ! i))"
  by (simp add: sameTypeAt_def)

lemma reconciled_news_chain:
  assumes wip: "wip < fiberCount w"
    and some: "elements \<noteq> [] \<or> 0 < n \<or> olds \<noteq> []"
  shows "isChain (fibers (reconciled w wip elements n olds))
           (child (fibers (reconciled w wip elements n olds) wip))
           (map (\<lambda>k. fiberCount w + k) [0..<length elements])"
proof -
  let ?w' = "reconciled w wip elements n olds"
  have sib: "sibling (fibers ?w' (fiberCount w + j))
      = (if Suc j < length elements then Some (fiberCount w + Suc j) else None)"
    if "j < length elements" for j
    by (simp add: reconciled_new[OF that])
  have ch: "child (fibers ?w' wip) = (if 0 < length elements then Some (fiberCount w + 0) else None)"
    using some by (auto simp: reconciled_old[OF wip])
  show ?thesis
    unfolding ch by (rule isChain_new[where j = 0]) (simp_all add: sib)
qed

text \<open>
  A call to try the reconciler on: the walk after the three calls, stopped before the
  fiber of the heading (address 9), whose old chain is the two text fibers 3 and 4.
\<close>

lemma secondWalkPaused_run:
  "\<exists>w. secondWalkPaused = Some (Inr w) \<and> nextUnitOfWork w = Some 9 \<and> fiberCount w = 10
     \<and> deletions w = Some [] \<and> alternate (fibers w 9) = Some 2 \<and> child (fibers w 9) = None
     \<and> child (fibers w 2) = Some 3 \<and> sibling (fibers w 3) = Some 4
     \<and> sibling (fibers w 4) = None
     \<and> type (fibers w 3) = Some (Tag ''TEXT_ELEMENT'')
     \<and> type (fibers w 4) = Some (Tag ''TEXT_ELEMENT'')
     \<and> effectTag (fibers w 3) = Some PLACEMENT \<and> effectTag (fibers w 4) = Some PLACEMENT
     \<and> dom (fibers w 3) = Some 2"
  by (simp add: secondWalkPaused_def twoUnits_def clicked_def mounted_def run_simps)


lemma secondWalkPaused_call:
  "\<exists>w. ending secondWalkPaused = w
     \<and> isChain (fibers w)
          (case alternate (fibers w 9) of None \<Rightarrow> None | Some a \<Rightarrow> child (fibers w a)) [3, 4]
     \<and> deletions w = Some [] \<and> 9 < fiberCount w \<and> (\<forall>r \<in> set [3, 4]. r < fiberCount w)
     \<and> type (fibers w 3) = Some (Tag ''TEXT_ELEMENT'')
     \<and> type (fibers w 4) = Some (Tag ''TEXT_ELEMENT'')
     \<and> effectTag (fibers w 3) = Some PLACEMENT \<and> dom (fibers w 3) = Some 2
     \<and> fiberCount w = 10"
proof -
  from secondWalkPaused_run obtain w where w: "secondWalkPaused = Some (Inr w)"
    "fiberCount w = 10" "deletions w = Some []" "alternate (fibers w 9) = Some 2"
    "child (fibers w 2) = Some 3" "sibling (fibers w 3) = Some 4" "sibling (fibers w 4) = None"
    "type (fibers w 3) = Some (Tag ''TEXT_ELEMENT'')"
    "type (fibers w 4) = Some (Tag ''TEXT_ELEMENT'')"
    "effectTag (fibers w 3) = Some PLACEMENT" "dom (fibers w 3) = Some 2"
    by (elim exE conjE)
  have "ending secondWalkPaused = w" by (simp add: ending_def w(1))
  then show ?thesis using w(2-) by simp
qed

lemma threeChildren_types:
  "length threeChildren = 3"
  "el_type (threeChildren ! 0) = Tag ''TEXT_ELEMENT''"
  "el_type (threeChildren ! 1) = Tag ''b''"
  "el_type (threeChildren ! 2) = Tag ''i''"
  "el_type (threeChildren ! Suc 0) = Tag ''b''"
  "threeChildren \<noteq> []"
  by (simp_all add: threeChildren_def createElement_def createTextElement_def)

text \<open>
  Claim C1. A call of \<^verbatim>\<open>reconcileChildren\<close> for a parent \<open>wip\<close> whose old chain
  (\<^verbatim>\<open>wip.alternate.child\<close>, then \<^verbatim>\<open>sibling\<close>) is \<open>olds\<close> returns, and position by position:
  where the element and the old fiber have equal types the fiber produced has the tag
  \<open>UPDATE\<close>, the \<^verbatim>\<open>dom\<close> and \<^verbatim>\<open>type\<close> of the old fiber, the \<^verbatim>\<open>props\<close> of the element and
  the old fiber as \<^verbatim>\<open>alternate\<close>; an element without a same-type old fiber gives a fiber
  tagged \<open>PLACEMENT\<close> with no \<^verbatim>\<open>dom\<close> and no \<^verbatim>\<open>alternate\<close>; an old fiber without a same-type
  element is itself tagged \<open>DELETION\<close>, is appended to the pending deletions and is not
  in the new chain. The fibers produced are \<open>news\<close>, the chain of \<^verbatim>\<open>wip.child\<close>. The
  sequence of children is the elements followed by any number \<open>n\<close> of \<^verbatim>\<open>null\<close> entries, at
  whose positions there is no element.
\<close>

theorem reconcileChildren_by_position:
  assumes ch: "isChain (fibers w)
                 (case alternate (fibers w wip) of None \<Rightarrow> None | Some a \<Rightarrow> child (fibers w a))
                 olds"
    and ds: "deletions w = Some ds"
    and wip: "wip < fiberCount w"
    and olds: "\<forall>r \<in> set olds. r < fiberCount w"
  shows "\<exists>w' news ds'.
     reconcileChildren wip (map Some elements @ replicate n None) w = Some (Inr w')
     \<and> length news = length elements
     \<and> (elements \<noteq> [] \<longrightarrow> isChain (fibers w') (child (fibers w' wip)) news)
     \<and> deletions w' = Some (ds @ ds')
     \<and> (\<forall>i < length elements.
          (i < length olds \<and> Some (el_type (elements ! i)) = type (fibers w (olds ! i)) \<longrightarrow>
             effectTag (fibers w' (news ! i)) = Some UPDATE
             \<and> dom (fibers w' (news ! i)) = dom (fibers w (olds ! i))
             \<and> type (fibers w' (news ! i)) = type (fibers w (olds ! i))
             \<and> props (fibers w' (news ! i)) = el_props (elements ! i)
             \<and> alternate (fibers w' (news ! i)) = Some (olds ! i))
        \<and> (\<not> (i < length olds \<and> Some (el_type (elements ! i)) = type (fibers w (olds ! i))) \<longrightarrow>
             effectTag (fibers w' (news ! i)) = Some PLACEMENT
             \<and> dom (fibers w' (news ! i)) = None
             \<and> alternate (fibers w' (news ! i)) = None
             \<and> type (fibers w' (news ! i)) = Some (el_type (elements ! i))
             \<and> props (fibers w' (news ! i)) = el_props (elements ! i)))
     \<and> (\<forall>i < length olds.
          \<not> (i < length elements \<and> Some (el_type (elements ! i)) = type (fibers w (olds ! i))) \<longrightarrow>
             effectTag (fibers w' (olds ! i)) = Some DELETION
             \<and> olds ! i \<in> set ds'
             \<and> olds ! i \<notin> set news)"
proof -
  let ?w' = "reconciled w wip elements n olds"
  let ?news = "map (\<lambda>k. fiberCount w + k) [0..<length elements]"
  let ?ds' = "removedOlds (fibers w) elements olds (length olds)"
  have run: "reconcileChildren wip (map Some elements @ replicate n None) w = Some (Inr ?w')"
    using ch ds wip olds by (rule reconcileChildren_reconciled)
  have chain: "elements \<noteq> [] \<longrightarrow> isChain (fibers ?w') (child (fibers ?w' wip)) ?news"
    using reconciled_news_chain[OF wip, of elements n olds] by simp
  have dl: "deletions ?w' = Some (ds @ ?ds')"
    using ds by (simp add: reconciled_fields)
  have new: "fibers ?w' (?news ! i) =
      (producedUnit (fibers w) wip elements olds i)
        \<lparr>sibling := (if Suc i < length elements then Some (fiberCount w + Suc i) else None)\<rparr>"
    if "i < length elements" for i
    using that by (simp add: reconciled_new)
  have upd: "effectTag (fibers ?w' (?news ! i)) = Some UPDATE
       \<and> dom (fibers ?w' (?news ! i)) = dom (fibers w (olds ! i))
       \<and> type (fibers ?w' (?news ! i)) = type (fibers w (olds ! i))
       \<and> props (fibers ?w' (?news ! i)) = el_props (elements ! i)
       \<and> alternate (fibers ?w' (?news ! i)) = Some (olds ! i)"
    if "i < length elements" "i < length olds"
      "Some (el_type (elements ! i)) = type (fibers w (olds ! i))" for i
    unfolding new[OF that(1)] using that by (simp add: producedUnit_def sameTypeAt_iff)
  have plc: "effectTag (fibers ?w' (?news ! i)) = Some PLACEMENT
       \<and> dom (fibers ?w' (?news ! i)) = None
       \<and> alternate (fibers ?w' (?news ! i)) = None
       \<and> type (fibers ?w' (?news ! i)) = Some (el_type (elements ! i))
       \<and> props (fibers ?w' (?news ! i)) = el_props (elements ! i)"
    if "i < length elements"
      "\<not> (i < length olds \<and> Some (el_type (elements ! i)) = type (fibers w (olds ! i)))" for i
    unfolding new[OF that(1)] using that by (simp add: producedUnit_def sameTypeAt_iff)
  have del: "effectTag (fibers ?w' (olds ! i)) = Some DELETION
       \<and> olds ! i \<in> set ?ds' \<and> olds ! i \<notin> set ?news"
    if i: "i < length olds"
      and n: "\<not> (i < length elements \<and> Some (el_type (elements ! i)) = type (fibers w (olds ! i)))"
    for i
  proof -
    have lt: "olds ! i < fiberCount w" using olds i by simp
    have mem: "olds ! i \<in> set ?ds'"
      unfolding set_removedOlds using i n by (auto simp: sameTypeAt_iff)
    have "olds ! i \<notin> set ?news" using lt by auto
    then show ?thesis using mem by (simp add: reconciled_old[OF lt])
  qed
  have len: "length ?news = length elements" by simp
  show ?thesis
    apply (rule exI[of _ ?w'], rule exI[of _ ?news], rule exI[of _ ?ds'])
    apply (intro conjI allI impI)
                    apply (rule run)
                   apply (rule len)
                  apply (erule chain[rule_format])
                 apply (rule dl)
    using upd apply blast
    using upd apply blast
    using upd apply blast
    using upd apply blast
    using upd apply blast
    using plc apply blast
    using plc apply blast
    using plc apply blast
    using plc apply blast
    using plc apply blast
    using del apply blast
    using del apply blast
    using del apply blast
    done
qed

text \<open>
  On that call with \<open>threeChildren\<close>: the text at position 0 updates the fiber 3, the
  element \<^verbatim>\<open>b\<close> at position 1 is placed and the text fiber 4 is removed, the element
  \<^verbatim>\<open>i\<close> at position 2 is placed.
\<close>

theorem reconcileChildren_by_position_witness:
  "\<exists>w' news ds'.
     reconcileChildren 9 (map Some threeChildren) (ending secondWalkPaused) = Some (Inr w')
     \<and> length news = 3
     \<and> isChain (fibers w') (child (fibers w' 9)) news
     \<and> deletions w' = Some ds'
     \<and> effectTag (fibers w' (news ! 0)) = Some UPDATE
     \<and> alternate (fibers w' (news ! 0)) = Some 3
     \<and> dom (fibers w' (news ! 0)) = Some 2
     \<and> effectTag (fibers w' (news ! 1)) = Some PLACEMENT
     \<and> dom (fibers w' (news ! 1)) = None
     \<and> effectTag (fibers w' (news ! 2)) = Some PLACEMENT
     \<and> effectTag (fibers w' 4) = Some DELETION
     \<and> 4 \<in> set ds' \<and> 4 \<notin> set news"
proof -
  from secondWalkPaused_call obtain w where e: "ending secondWalkPaused = w"
    and ch: "isChain (fibers w)
          (case alternate (fibers w 9) of None \<Rightarrow> None | Some a \<Rightarrow> child (fibers w a)) [3, 4]"
    and dl: "deletions w = Some []" and wip: "9 < fiberCount w"
    and olds: "\<forall>r \<in> set [3, 4]. r < fiberCount w"
    and f: "type (fibers w 3) = Some (Tag ''TEXT_ELEMENT'')"
      "type (fibers w 4) = Some (Tag ''TEXT_ELEMENT'')" "dom (fibers w 3) = Some 2"
    by (elim exE conjE)
  have pad: "map Some threeChildren @ replicate 0 None = map Some threeChildren" by simp
  from reconcileChildren_by_position[OF ch dl wip olds, of threeChildren 0]
  show ?thesis
    unfolding e pad
    apply (elim exE conjE)
    subgoal premises p for w' news ds'
      apply (rule exI[of _ w'], rule exI[of _ news], rule exI[of _ ds'])
      using p(1) p(2) p(3) p(4) p(5)[rule_format, of 0] p(5)[rule_format, of 1]
        p(5)[rule_format, of 2] p(6)[rule_format, of 1] f
      by (auto simp: threeChildren_types)
    done
qed

text \<open>
  Claim C7, as the code has it. The sequence of children is the elements followed by
  \<open>n\<close> entries \<^verbatim>\<open>null\<close>. After a call of \<^verbatim>\<open>reconcileChildren\<close>, \<^verbatim>\<open>wip.child\<close> starts a chain
  of fibers created by the call, one for each entry that is an element: a \<^verbatim>\<open>null\<close> entry
  and a position with an old fiber alone add nothing to it. The old fibers removed by the
  call are appended to the pending deletions, each one once. When the sequence is empty
  and there is no old fiber the loop does not run, and the call changes nothing.
\<close>

theorem reconcileChildren_chain_and_deletions:
  assumes ch: "isChain (fibers w)
                 (case alternate (fibers w wip) of None \<Rightarrow> None | Some a \<Rightarrow> child (fibers w a))
                 olds"
    and ds: "deletions w = Some ds"
    and wip: "wip < fiberCount w"
    and olds: "\<forall>r \<in> set olds. r < fiberCount w"
  shows "\<exists>w' news ds'.
     reconcileChildren wip (map Some elements @ replicate n None) w = Some (Inr w')
     \<and> (elements = [] \<and> n = 0 \<and> olds = [] \<longrightarrow> w' = w)
     \<and> (elements \<noteq> [] \<or> 0 < n \<or> olds \<noteq> [] \<longrightarrow>
          isChain (fibers w') (child (fibers w' wip)) news)
     \<and> length news = length elements
     \<and> (\<forall>r \<in> set news. fiberCount w \<le> r \<and> r < fiberCount w')
     \<and> deletions w' = Some (ds @ ds')
     \<and> (\<forall>r. r \<in> set ds' \<longleftrightarrow>
           (\<exists>i < length olds. r = olds ! i
              \<and> \<not> (i < length elements
                    \<and> Some (el_type (elements ! i)) = type (fibers w (olds ! i)))))
     \<and> distinct ds'
     \<and> (\<forall>r \<in> set ds'. r \<notin> set news
           \<and> (r \<notin> set ds \<longrightarrow> count_list (ds @ ds') r = 1))"
proof -
  let ?w' = "reconciled w wip elements n olds"
  let ?news = "map (\<lambda>k. fiberCount w + k) [0..<length elements]"
  let ?ds' = "removedOlds (fibers w) elements olds (length olds)"
  have run: "reconcileChildren wip (map Some elements @ replicate n None) w = Some (Inr ?w')"
    using ch ds wip olds by (rule reconcileChildren_reconciled)
  have chain: "isChain (fibers ?w') (child (fibers ?w' wip)) ?news"
    if "elements \<noteq> [] \<or> 0 < n \<or> olds \<noteq> []"
    using wip that by (rule reconciled_news_chain)
  have same: "?w' = w" if "elements = [] \<and> n = 0 \<and> olds = []"
    using that reconciled_nothing[OF ds] by simp
  have dl: "deletions ?w' = Some (ds @ ?ds')"
    using ds by (simp add: reconciled_fields)
  have fr: "\<forall>r \<in> set ?news. fiberCount w \<le> r \<and> r < fiberCount ?w'"
    by (auto simp: reconciled_fields)
  have mem: "r \<in> set ?ds' \<longleftrightarrow>
      (\<exists>i < length olds. r = olds ! i
         \<and> \<not> (i < length elements \<and> Some (el_type (elements ! i)) = type (fibers w (olds ! i))))"
    for r
    unfolding set_removedOlds by (auto simp: sameTypeAt_iff)
  have dist: "distinct ?ds'"
    using isChain_distinct[OF ch] by (rule distinct_removedOlds)
  have cnt: "r \<notin> set ?news \<and> (r \<notin> set ds \<longrightarrow> count_list (ds @ ?ds') r = 1)"
    if "r \<in> set ?ds'" for r
  proof -
    from that obtain i where "i < length olds" "r = olds ! i" unfolding mem by blast
    then have "r < fiberCount w" using olds by simp
    then have "r \<notin> set ?news" by auto
    then show ?thesis using that by (simp add: count_list_distinct[OF dist])
  qed
  have len: "length ?news = length elements" by simp
  show ?thesis
    apply (rule exI[of _ ?w'], rule exI[of _ ?news], rule exI[of _ ?ds'])
    apply (intro conjI allI ballI impI)
             apply (rule run)
            apply (erule same)
           apply (erule chain)
          apply (rule len)
    using fr apply blast
    using fr apply blast
        apply (rule dl)
       apply (rule mem)
      apply (rule dist)
    using cnt apply blast
    using cnt apply blast
    done
qed

text \<open>
  On the same call with one more entry, \<^verbatim>\<open>null\<close>, after \<open>threeChildren\<close>: three new
  fibers for the four entries, and the fiber 4 once in \<^verbatim>\<open>deletions\<close>.
\<close>

theorem reconcileChildren_chain_and_deletions_witness:
  "\<exists>w' news ds'.
     reconcileChildren 9 (map Some threeChildren @ [None]) (ending secondWalkPaused)
       = Some (Inr w')
     \<and> isChain (fibers w') (child (fibers w' 9)) news
     \<and> length news = 3
     \<and> deletions w' = Some ds'
     \<and> 4 \<in> set ds' \<and> 3 \<notin> set ds' \<and> count_list ds' 4 = 1"
proof -
  from secondWalkPaused_call obtain w where e: "ending secondWalkPaused = w"
    and ch: "isChain (fibers w)
          (case alternate (fibers w 9) of None \<Rightarrow> None | Some a \<Rightarrow> child (fibers w a)) [3, 4]"
    and dl: "deletions w = Some []" and wip: "9 < fiberCount w"
    and olds: "\<forall>r \<in> set [3, 4]. r < fiberCount w"
    and f: "type (fibers w 3) = Some (Tag ''TEXT_ELEMENT'')"
      "type (fibers w 4) = Some (Tag ''TEXT_ELEMENT'')"
    by (elim exE conjE)
  have pad: "map Some threeChildren @ replicate 1 None = map Some threeChildren @ [None]"
    by simp
  have some: "threeChildren \<noteq> [] \<or> 0 < (1::nat) \<or> [3, 4] \<noteq> ([]::nat list)" by simp
  have c4: "\<exists>i < length [3, 4::nat]. (4::nat) = [3, 4] ! i
      \<and> \<not> (i < length threeChildren
            \<and> Some (el_type (threeChildren ! i)) = type (fibers w ([3, 4] ! i)))"
    by (rule exI[of _ 1]) (simp add: f threeChildren_types)
  have c3: "\<not> (\<exists>i < length [3, 4::nat]. (3::nat) = [3, 4] ! i
      \<and> \<not> (i < length threeChildren
            \<and> Some (el_type (threeChildren ! i)) = type (fibers w ([3, 4] ! i))))"
  proof
    assume "\<exists>i < length [3, 4::nat]. (3::nat) = [3, 4] ! i
      \<and> \<not> (i < length threeChildren
            \<and> Some (el_type (threeChildren ! i)) = type (fibers w ([3, 4] ! i)))"
    then obtain i where i: "i < length [3, 4::nat]" "(3::nat) = [3, 4] ! i"
      "\<not> (i < length threeChildren
            \<and> Some (el_type (threeChildren ! i)) = type (fibers w ([3, 4] ! i)))"
      by blast
    from i(1) have "i = 0 \<or> i = 1" by auto
    then show False
    proof
      assume "i = 0"
      then show False using i(3) by (simp add: f threeChildren_types)
    next
      assume "i = 1"
      then show False using i(2) by simp
    qed
  qed
  from reconcileChildren_chain_and_deletions[OF ch dl wip olds, of threeChildren 1]
  show ?thesis
    unfolding e pad
    apply (elim exE conjE)
    subgoal premises p for w' news ds'
    proof -
      have m4: "4 \<in> set ds'" using p(7)[rule_format, of 4] c4 by blast
      have m3: "3 \<notin> set ds'" using p(7)[rule_format, of 3] c3 by blast
      have "count_list ([] @ ds') 4 = 1" using p(9)[rule_format, OF m4] by simp
      then show ?thesis
        using p(1) p(3)[rule_format, OF some] p(4) p(6) m4 m3
        by (intro exI[of _ w'] exI[of _ news] exI[of _ ds']) (simp add: threeChildren_types)
    qed
    done
qed

text \<open>
  Against claim C7 as stated: the page is a \<^verbatim>\<open>div\<close> whose only child is \<^verbatim>\<open>null\<close>. The
  sequence of children of its fiber (address 1) has length one, and after the call that
  the fiber makes, \<^verbatim>\<open>reconcileChildren(fiber, fiber.props.children)\<close>, it has no child: the
  chain has length zero.
\<close>

lemma nullChildPaused_run:
  "\<exists>w w'. nullChildPaused = Some (Inr w) \<and> nextUnitOfWork w = Some 1
     \<and> children (props (fibers w 1)) = Some [None]
     \<and> reconcileChildren 1 [None] w = Some (Inr w') \<and> child (fibers w' 1) = None"
  by (simp add: nullChildPaused_def run_simps)

theorem null_child_gives_no_unit:
  "children (props (fibers (ending nullChildPaused) 1)) = Some [None]
   \<and> observe (\<lambda>w. child (fibers w 1)) (reconcileChildren 1 [None] (ending nullChildPaused))
       = Some (Inr None)"
proof -
  from nullChildPaused_run obtain w w' where w: "nullChildPaused = Some (Inr w)"
    "children (props (fibers w 1)) = Some [None]"
    "reconcileChildren 1 [None] w = Some (Inr w')" "child (fibers w' 1) = None"
    by (elim exE conjE)
  have e: "ending nullChildPaused = w" by (simp add: ending_def w(1))
  show ?thesis unfolding e using w(2-) by (simp add: observe_def)
qed

text \<open>
  Claim C6, as the code has it. A fiber gets its tag, \<open>UPDATE\<close> or \<open>PLACEMENT\<close>, where
  \<^verbatim>\<open>reconcileChildren\<close> creates it for its parent. The call assigns the tag of a fiber
  that exists already in one case only: the old fiber at a position without a same-type
  element gets \<open>DELETION\<close>, over the tag of its own generation. Every other fiber keeps
  the tag it has.
\<close>

theorem reconcileChildren_effectTags:
  assumes ch: "isChain (fibers w)
                 (case alternate (fibers w wip) of None \<Rightarrow> None | Some a \<Rightarrow> child (fibers w a))
                 olds"
    and ds: "deletions w = Some ds"
    and wip: "wip < fiberCount w"
    and olds: "\<forall>r \<in> set olds. r < fiberCount w"
  shows "\<exists>w'.
     reconcileChildren wip (map Some elements @ replicate n None) w = Some (Inr w')
     \<and> fiberCount w' = fiberCount w + length elements
     \<and> (\<forall>r. fiberCount w \<le> r \<and> r < fiberCount w' \<longrightarrow>
           effectTag (fibers w' r) = Some UPDATE \<or> effectTag (fibers w' r) = Some PLACEMENT)
     \<and> (\<forall>r < fiberCount w.
           effectTag (fibers w' r) =
             (if \<exists>i < length olds. r = olds ! i
                   \<and> \<not> (i < length elements
                         \<and> Some (el_type (elements ! i)) = type (fibers w (olds ! i)))
              then Some DELETION else effectTag (fibers w r)))"
proof -
  let ?w' = "reconciled w wip elements n olds"
  let ?ds' = "removedOlds (fibers w) elements olds (length olds)"
  have run: "reconcileChildren wip (map Some elements @ replicate n None) w = Some (Inr ?w')"
    using ch ds wip olds by (rule reconcileChildren_reconciled)
  have fc: "fiberCount ?w' = fiberCount w + length elements"
    by (simp add: reconciled_fields)
  have new: "effectTag (fibers ?w' r) = Some UPDATE \<or> effectTag (fibers ?w' r) = Some PLACEMENT"
    if "fiberCount w \<le> r" "r < fiberCount ?w'" for r
  proof -
    have "r = fiberCount w + (r - fiberCount w)" "r - fiberCount w < length elements"
      using that unfolding fc by linarith+
    then obtain j where j: "r = fiberCount w + j" "j < length elements" by blast
    show ?thesis unfolding j(1) reconciled_new[OF j(2)] by (simp add: producedUnit_def)
  qed
  have mem: "r \<in> set ?ds' \<longleftrightarrow>
      (\<exists>i < length olds. r = olds ! i
         \<and> \<not> (i < length elements \<and> Some (el_type (elements ! i)) = type (fibers w (olds ! i))))"
    for r
    unfolding set_removedOlds by (auto simp: sameTypeAt_iff)
  have old: "effectTag (fibers ?w' r) =
             (if \<exists>i < length olds. r = olds ! i
                   \<and> \<not> (i < length elements
                         \<and> Some (el_type (elements ! i)) = type (fibers w (olds ! i)))
              then Some DELETION else effectTag (fibers w r))"
    if "r < fiberCount w" for r
    unfolding reconciled_old[OF that] mem by simp
  show ?thesis
    apply (rule exI[of _ ?w'])
    apply (intro conjI allI impI)
       apply (rule run)
      apply (rule fc)
    using new apply blast
    using old apply blast
    done
qed

text \<open>On the same call: the tags of the old fibers 3 and 4 and of the new fiber 10.\<close>

theorem reconcileChildren_effectTags_witness:
  "\<exists>w'.
     reconcileChildren 9 (map Some threeChildren) (ending secondWalkPaused) = Some (Inr w')
     \<and> fiberCount w' = 13
     \<and> effectTag (fibers w' 4) = Some DELETION
     \<and> effectTag (fibers w' 3) = Some PLACEMENT
     \<and> (effectTag (fibers w' 10) = Some UPDATE \<or> effectTag (fibers w' 10) = Some PLACEMENT)"
proof -
  from secondWalkPaused_call obtain w where e: "ending secondWalkPaused = w"
    and ch: "isChain (fibers w)
          (case alternate (fibers w 9) of None \<Rightarrow> None | Some a \<Rightarrow> child (fibers w a)) [3, 4]"
    and dl: "deletions w = Some []" and wip: "9 < fiberCount w"
    and olds: "\<forall>r \<in> set [3, 4]. r < fiberCount w"
    and f: "type (fibers w 3) = Some (Tag ''TEXT_ELEMENT'')"
      "type (fibers w 4) = Some (Tag ''TEXT_ELEMENT'')"
    and t3: "effectTag (fibers w 3) = Some PLACEMENT" and fc: "fiberCount w = 10"
    by (elim exE conjE)
  have c4: "\<exists>i < length [3, 4::nat]. (4::nat) = [3, 4] ! i
      \<and> \<not> (i < length threeChildren
            \<and> Some (el_type (threeChildren ! i)) = type (fibers w ([3, 4] ! i)))"
    by (rule exI[of _ 1]) (simp add: f threeChildren_types)
  have c3: "\<not> (\<exists>i < length [3, 4::nat]. (3::nat) = [3, 4] ! i
      \<and> \<not> (i < length threeChildren
            \<and> Some (el_type (threeChildren ! i)) = type (fibers w ([3, 4] ! i))))"
  proof
    assume "\<exists>i < length [3, 4::nat]. (3::nat) = [3, 4] ! i
      \<and> \<not> (i < length threeChildren
            \<and> Some (el_type (threeChildren ! i)) = type (fibers w ([3, 4] ! i)))"
    then obtain i where i: "i < length [3, 4::nat]" "(3::nat) = [3, 4] ! i"
      "\<not> (i < length threeChildren
            \<and> Some (el_type (threeChildren ! i)) = type (fibers w ([3, 4] ! i)))"
      by blast
    from i(1) have "i = 0 \<or> i = 1" by auto
    then show False
    proof
      assume "i = 0"
      then show False using i(3) by (simp add: f threeChildren_types)
    next
      assume "i = 1"
      then show False using i(2) by simp
    qed
  qed
  have pad: "map Some threeChildren @ replicate 0 None = map Some threeChildren" by simp
  from reconcileChildren_effectTags[OF ch dl wip olds, of threeChildren 0]
  show ?thesis
    unfolding e pad
    apply (elim exE conjE)
    subgoal premises p for w'
    proof -
      have n: "fiberCount w' = 13" using p(2) fc by (simp add: threeChildren_types)
      have a4: "effectTag (fibers w' 4) = Some DELETION"
        using p(4)[rule_format, of 4] fc by (simp only: c4 if_True, simp?)
      have a3: "effectTag (fibers w' 3) = Some PLACEMENT"
        using p(4)[rule_format, of 3] fc t3 by (simp only: c3 if_False, simp?)
      have a10: "effectTag (fibers w' 10) = Some UPDATE \<or> effectTag (fibers w' 10) = Some PLACEMENT"
        using p(3)[rule_format, of 10] fc n by simp
      show ?thesis
        using p(1) n a4 a3 a10 by (intro exI[of _ w']) simp
    qed
    done
qed

text \<open>
  Against claim C6 as stated: the fiber of the component \<open>Heading\<close> (address 1) has the
  tag \<open>PLACEMENT\<close> when its generation is committed, and the tag \<open>DELETION\<close> once the next
  generation is reconciled.
\<close>

theorem effectTag_assigned_twice:
  "observe (\<lambda>w. effectTag (fibers w 1)) headed = Some (Inr (Some PLACEMENT))
   \<and> observe (\<lambda>w. effectTag (fibers w 1)) replacedWalk = Some (Inr (Some DELETION))"
proof -
  from headed_run obtain w where w: "headed = Some (Inr w)"
    "effectTag (fibers w 1) = Some PLACEMENT"
    by (elim exE conjE)
  from replacedWalk_run obtain w' where w': "replacedWalk = Some (Inr w')"
    "effectTag (fibers w' 1) = Some DELETION"
    by (elim exE conjE)
  show ?thesis using w(2) w'(2) by (simp add: observe_def w(1) w'(1))
qed

subsection \<open>The scheduler\<close>

text \<open>The walk of the first page, stopped before its last text fiber (address 4).\<close>

lemma firstWalkPaused_run:
  "\<exists>w w1 w2 w3. firstWalkPaused = Some (Inr w) \<and> nextUnitOfWork w = Some 4
     \<and> type (fibers w 4) = Some (Tag ''TEXT_ELEMENT'')
     \<and> updateHostComponent 4 w = Some (Inr w1)
     \<and> child (fibers w1 4) = None \<and> sibling (fibers w1 4) = None
     \<and> parent (fibers w1 4) = Some 2 \<and> sibling (fibers w1 2) = None
     \<and> parent (fibers w1 2) = Some 1 \<and> sibling (fibers w1 1) = None
     \<and> parent (fibers w1 1) = Some 0 \<and> sibling (fibers w1 0) = None
     \<and> parent (fibers w1 0) = None
     \<and> workWhile components unhurried 0 False w = Some (Inr w2)
     \<and> nextUnitOfWork w2 = None \<and> wipRoot w2 = Some 0
     \<and> commitRoot w2 = Some (Inr w3) \<and> childNodes (nodes w3 0) = [1]"
  by (simp add: firstWalkPaused_def fourUnits_def run_simps)

lemma nextSibling_ancestry:
  "isAncestry (fibers w) start path \<Longrightarrow>
   nextSibling start w = Some (nearestSibling (fibers w) path)"
proof (induction path arbitrary: start)
  case Nil
  then show ?case by (subst nextSibling.simps) (simp add: nearestSibling_def)
next
  case (Cons r rs)
  then have s: "start = Some r" and t: "isAncestry (fibers w) (parent (fibers w r)) rs" by auto
  show ?case
  proof (cases "sibling (fibers w r)")
    case None
    then show ?thesis
      using Cons.IH[OF t] by (subst nextSibling.simps) (simp add: s nearestSibling_def)
  next
    case (Some x)
    then show ?thesis by (subst nextSibling.simps) (simp add: s nearestSibling_def)
  qed
qed

text \<open>
  What the scheduler does. When the processing of a unit \<open>f\<close> succeeds,
  \<^verbatim>\<open>performUnitOfWork\<close> returns as the next unit the child of \<open>f\<close> if it has one, and
  otherwise the sibling of the nearest fiber with a sibling among \<open>f\<close> and its ancestors,
  or nothing when none has one; the loop of \<^verbatim>\<open>workLoop\<close> goes on from that unit. When the
  loop ends with no next unit and a \<^verbatim>\<open>wipRoot\<close>, \<^verbatim>\<open>workLoop\<close> is the commit of that world,
  and \<^verbatim>\<open>wipRoot\<close> is cleared if the commit completes; otherwise \<^verbatim>\<open>workLoop\<close> commits
  nothing.
\<close>

theorem scheduler_next_unit_and_commit:
  "(\<forall>w1 path.
      (if isFunctionComponent (fibers w f) then updateFunctionComponent comps f w
       else updateHostComponent f w) = Some (Inr w1)
      \<and> isAncestry (fibers w1) (Some f) path \<longrightarrow>
      performUnitOfWork comps f w =
        Some (Inr (case child (fibers w1 f) of
                     Some c \<Rightarrow> Some c
                   | None \<Rightarrow> nearestSibling (fibers w1) path, w1))
      \<and> (nextUnitOfWork w = Some f \<longrightarrow>
           workWhile comps deadline k False w =
             workWhile comps deadline (k + 1) (deadline k < 1)
               (w1\<lparr>nextUnitOfWork :=
                     (case child (fibers w1 f) of
                        Some c \<Rightarrow> Some c
                      | None \<Rightarrow> nearestSibling (fibers w1) path)\<rparr>)))
   \<and> (\<forall>w2. workWhile comps deadline 0 False w = Some (Inr w2) \<longrightarrow>
        (nextUnitOfWork w2 = None \<and> wipRoot w2 \<noteq> None \<longrightarrow>
           workLoop comps deadline w = commitRoot w2
           \<and> (\<forall>w3. commitRoot w2 = Some (Inr w3) \<longrightarrow>
                 wipRoot w3 = None \<and> currentRoot w3 = wipRoot w2))
        \<and> (\<not> (nextUnitOfWork w2 = None \<and> wipRoot w2 \<noteq> None) \<longrightarrow>
             workLoop comps deadline w = Some (Inr w2)))"
proof -
  have unit: "performUnitOfWork comps f w =
        Some (Inr (case child (fibers w1 f) of
                     Some c \<Rightarrow> Some c
                   | None \<Rightarrow> nearestSibling (fibers w1) path, w1))"
    if "(if isFunctionComponent (fibers w f) then updateFunctionComponent comps f w
         else updateHostComponent f w) = Some (Inr w1)"
      and "isAncestry (fibers w1) (Some f) path" for w1 path
    using that(1) nextSibling_ancestry[OF that(2)]
    by (simp add: performUnitOfWork_def split: option.splits)
  have loop: "workWhile comps deadline k False w =
             workWhile comps deadline (k + 1) (deadline k < 1) (w1\<lparr>nextUnitOfWork := n\<rparr>)"
    if "performUnitOfWork comps f w = Some (Inr (n, w1))" "nextUnitOfWork w = Some f"
    for w1 n
    using that by (subst workWhile.simps) simp
  have commit: "wipRoot w3 = None \<and> currentRoot w3 = wipRoot w2"
    if "commitRoot w2 = Some (Inr w3)" for w2 w3
  proof -
    from commitRoot_Inr[OF that] obtain wa root where
      o: "onlyNodes w2 wa" and w3: "w3 = wa\<lparr>currentRoot := wipRoot wa, wipRoot := None\<rparr>"
      by (elim exE conjE)
    show ?thesis using onlyNodes_fields(8)[OF o] by (simp add: w3)
  qed
  have wl: "workLoop comps deadline w =
      (if nextUnitOfWork w2 = None \<and> wipRoot w2 \<noteq> None then commitRoot w2 else Some (Inr w2))"
    if "workWhile comps deadline 0 False w = Some (Inr w2)" for w2
    using that by (simp add: workLoop_def)
  show ?thesis
    apply (intro conjI allI impI)
    subgoal for w1 path using unit by blast
    subgoal for w1 path using loop[OF unit] by blast
    subgoal for w2 using wl by simp
    subgoal for w2 w3 using commit by blast
    subgoal for w2 w3 using commit by blast
    subgoal for w2 using wl by auto
    done
qed

theorem scheduler_next_unit_and_commit_witness:
  "map_option (map_sum id fst) (performUnitOfWork components 4 (ending firstWalkPaused))
     = Some (Inr None)
   \<and> observe (\<lambda>w. (wipRoot w, currentRoot w, childNodes (nodes w 0)))
       (workLoop components unhurried (ending firstWalkPaused))
     = Some (Inr (None, Some 0, [1]))"
proof -
  from firstWalkPaused_run obtain w w1 w2 w3 where w: "firstWalkPaused = Some (Inr w)"
    and ty: "type (fibers w 4) = Some (Tag ''TEXT_ELEMENT'')"
    and up: "updateHostComponent 4 w = Some (Inr w1)"
    and f: "child (fibers w1 4) = None" "sibling (fibers w1 4) = None"
      "parent (fibers w1 4) = Some 2" "sibling (fibers w1 2) = None"
      "parent (fibers w1 2) = Some 1" "sibling (fibers w1 1) = None"
      "parent (fibers w1 1) = Some 0" "sibling (fibers w1 0) = None"
      "parent (fibers w1 0) = None"
    and ww: "workWhile components unhurried 0 False w = Some (Inr w2)"
    and n: "nextUnitOfWork w2 = None" "wipRoot w2 = Some 0"
    and c: "commitRoot w2 = Some (Inr w3)" "childNodes (nodes w3 0) = [1]"
    by (elim exE conjE)
  have e: "ending firstWalkPaused = w" by (simp add: ending_def w)
  have u: "(if isFunctionComponent (fibers w 4) then updateFunctionComponent components 4 w
       else updateHostComponent 4 w) = Some (Inr w1)"
    using ty up by (simp add: isFunctionComponent_def)
  have a: "isAncestry (fibers w1) (Some 4) [4, 2, 1, 0]" using f by simp
  have s: "nearestSibling (fibers w1) [4, 2, 1, 0] = None" using f by (simp add: nearestSibling_def)
  note T = scheduler_next_unit_and_commit[of w 4 components unhurried 0]
  have 1: "performUnitOfWork components 4 w = Some (Inr (None, w1))"
    using T[THEN conjunct1, rule_format, of w1 "[4, 2, 1, 0]"] u a s f(1) by simp
  have 2: "workLoop components unhurried w = commitRoot w2"
    "wipRoot w3 = None \<and> currentRoot w3 = wipRoot w2"
    using T[THEN conjunct2, rule_format, of w2] ww n c(1) by simp_all
  show ?thesis unfolding e using 1 2 c n by (simp add: observe_def)
qed

text \<open>
  Claim C4, on a case where it fails. The first page is a \<^verbatim>\<open>div\<close> with the children \<^verbatim>\<open>p\<close>
  and \<^verbatim>\<open>span\<close>, the second page the \<^verbatim>\<open>div\<close> without children. The walk of the second
  page ends with no next unit and with a \<^verbatim>\<open>wipRoot\<close>, and the two old children in the
  pending deletions. \<^verbatim>\<open>workLoop\<close> calls \<^verbatim>\<open>commitRoot\<close>, which throws: \<^verbatim>\<open>commitWork\<close> on the
  fiber of \<^verbatim>\<open>p\<close> goes on to its sibling after the removal and removes the host node of
  \<^verbatim>\<open>span\<close>, which the turn of \<^verbatim>\<open>span\<close> in \<^verbatim>\<open>deletions.forEach\<close> removes again. The
  assignments that end \<^verbatim>\<open>commitRoot\<close> are not reached: \<^verbatim>\<open>wipRoot\<close> is not cleared.
\<close>

lemma emptiedWalk_run:
  "\<exists>w. emptiedWalk = Some (Inr w) \<and> nextUnitOfWork w = None \<and> wipRoot w = Some 4
     \<and> currentRoot w = Some 0 \<and> deletions w = Some [2, 3]
     \<and> commitRoot w = Some (Inl NotFoundError)"
  by (simp add: emptiedWalk_def run_simps)

theorem commit_fault_keeps_wipRoot:
  "observe (\<lambda>w. (nextUnitOfWork w, wipRoot w, currentRoot w, deletions w)) emptiedWalk
     = Some (Inr (None, Some 4, Some 0, Some [2, 3]))
   \<and> commitRoot (ending emptiedWalk) = Some (Inl NotFoundError)
   \<and> emptied = Some (Inl NotFoundError)"
proof -
  from emptiedWalk_run obtain w where w: "emptiedWalk = Some (Inr w)"
    "nextUnitOfWork w = None" "wipRoot w = Some 4" "currentRoot w = Some 0"
    "deletions w = Some [2, 3]" "commitRoot w = Some (Inl NotFoundError)"
    by (elim exE conjE)
  have e: "ending emptiedWalk = w" by (simp add: ending_def w(1))
  have "emptied = Some (Inl NotFoundError)" by (simp add: emptied_def run_simps)
  then show ?thesis unfolding e using w(2-) by (simp add: observe_def w(1))
qed

end
